theory Spec2Isabelle
  imports Main "HOL-Library.Word" "HOL-Library.Monad_Syntax" "HOL-Library.Sublist"
begin

unbundle bit_operations_syntax

section \<open>Data model of the recorder\<close>

text \<open>
  The sketch \<^verbatim>\<open>VS1053_experimental.ino\<close> (and its older copy) drives a VS1053 codec
  through the SFEMP3Shield library, an SdFat file, a keypad and the serial port. The
  function \<^verbatim>\<open>record\<close> is embedded below. Everything outside the sketch (the codec,
  the SD card, the keypad, the serial line, the clock) is an environment that answers the
  sketch's calls; the sketch's own variables and everything it sends out form the state.
\<close>

type_synonym u8 = "8 word"
type_synonym u16 = "16 word"
type_synonym u32 = "32 word"

text \<open>The SCI registers that \<^verbatim>\<open>record\<close> touches.\<close>

datatype reg =
  SCI_MODE | SCI_CLOCKF | SCI_BASS | SCI_WRAMADDR | SCI_WRAM
  | SCI_HDAT0 | SCI_HDAT1 | SCI_AIADDR | SCI_AICTRL1 | SCI_AICTRL2 | SCI_AICTRL3

text \<open>What the sketch does to its collaborators, in program order.\<close>

datatype event =
  RegWrite reg u16
  | LoadPlugin string u8
  | FileOpen string bool
  | FileClose

text \<open>
  The environment. Each answer is indexed by how many times the question has been asked:
  \<open>reg_read e r n\<close> is what the \<open>n\<close>-th \<^verbatim>\<open>Mp3ReadRegister(r)\<close> returns, \<open>dreq e k\<close> and
  \<open>millis e k\<close> are the \<open>k\<close>-th sample of the DREQ pin and of the millisecond clock,
  \<open>getKey e i\<close> and \<open>serial_in e i\<close> are what the keypad and the serial port hold in the
  \<open>i\<close>-th pass of the recording loop (\<open>0\<close> is \<^verbatim>\<open>NO_KEY\<close>, \<open>None\<close> is
  \<^verbatim>\<open>Serial.available() == 0\<close>). \<open>load_result\<close> is the return value of
  \<^verbatim>\<open>VSLoadUserCode\<close> (non-zero on failure) and \<open>open_ok\<close> the one of \<^verbatim>\<open>file.open\<close>.
  The mode bits \<^verbatim>\<open>SM_RESET\<close>, \<^verbatim>\<open>SM_ADPCM\<close>, \<^verbatim>\<open>SM_SDINEW\<close>, \<^verbatim>\<open>SM_LINE1\<close> are macros
  of the library header, which is not part of the sketch, and \<^verbatim>\<open>USE_LINEIN\<close> is a
  build flag: they are parameters.
\<close>

record env =
  dreq :: "nat \<Rightarrow> bool"
  millis :: "nat \<Rightarrow> u32"
  reg_read :: "reg \<Rightarrow> nat \<Rightarrow> u16"
  load_result :: "string \<Rightarrow> u8"
  open_ok :: "string \<Rightarrow> bool"
  getKey :: "nat \<Rightarrow> u8"
  serial_in :: "nat \<Rightarrow> u8 option"
  use_linein :: bool
  sm_reset :: u16
  sm_adpcm :: u16
  sm_sdinew :: u16
  sm_line1 :: u16

text \<open>
  The state: the global \<^verbatim>\<open>rec_state\<close>, the local \<^verbatim>\<open>wbuff[256]\<close>, the bytes written to
  \<^verbatim>\<open>file\<close> by this call (\<open>sink\<close>), the log of calls made to the collaborators, and the
  counters that index the environment. Two fields observe the run without being
  variables of the sketch: \<open>visited\<close> lists the values assigned to \<^verbatim>\<open>rec_state\<close> in
  order, and \<open>overrun\<close> is raised by an access outside \<^verbatim>\<open>wbuff\<close> (undefined behaviour
  in C++).
\<close>

record st =
  rec_state :: u8
  visited :: "u8 list"
  wbuff :: "u8 list"
  overrun :: bool
  sink :: "u8 list"
  events :: "event list"
  reads :: "reg \<Rightarrow> nat"
  now :: nat
  polls :: nat

definition st0 :: st where
  "st0 = \<lparr>rec_state = 0, visited = [], wbuff = replicate 256 0, overrun = False,
          sink = [], events = [], reads = (\<lambda>_. 0), now = 0, polls = 0\<rparr>"

definition set_rec_state :: "u8 \<Rightarrow> st \<Rightarrow> st" where
  "set_rec_state v s = s\<lparr>rec_state := v, visited := visited s @ [v]\<rparr>"

definition Mp3WriteRegister :: "reg \<Rightarrow> u16 \<Rightarrow> st \<Rightarrow> st" where
  "Mp3WriteRegister r v s = s\<lparr>events := events s @ [RegWrite r v]\<rparr>"

definition Mp3ReadRegister :: "env \<Rightarrow> reg \<Rightarrow> st \<Rightarrow> u16 \<times> st" where
  "Mp3ReadRegister e r s =
     (reg_read e r (reads s r), s\<lparr>reads := (reads s)(r := Suc (reads s r))\<rparr>)"

section \<open>Waiting for DREQ\<close>

text \<open>
  \<^verbatim>\<open>timer = millis(); while (!digitalRead(MP3_DREQ) || millis() - timer > 100UL) {;}\<close>

  The loop goes round again while DREQ is low, and also while more than 100 ms have
  passed; \<open>k\<close> is the index of the sample the condition looks at. The subtraction is
  the unsigned 32-bit one. The loop need not end, so not returning is \<open>None\<close>.
\<close>

partial_function (option) wait_dreq :: "env \<Rightarrow> u32 \<Rightarrow> nat \<Rightarrow> nat option" where
  "wait_dreq e timer k =
     (if \<not> dreq e k \<or> millis e k - timer > 100 then wait_dreq e timer (Suc k)
      else Some (Suc k))"

definition wait_ready :: "env \<Rightarrow> st \<Rightarrow> st option" where
  "wait_ready e s =
     do { k \<leftarrow> wait_dreq e (millis e (now s)) (Suc (now s)); Some (s\<lparr>now := k\<rparr>) }"

section \<open>The drain buffer and the sink\<close>

text \<open>
  A store into \<^verbatim>\<open>wbuff[i]\<close>. The array has 256 bytes; a store outside it is undefined
  behaviour, which the model records in \<open>overrun\<close> and otherwise ignores.
\<close>

definition wbuff_store :: "nat \<Rightarrow> u8 \<Rightarrow> st \<Rightarrow> st" where
  "wbuff_store i v s =
     (if i < length (wbuff s) then s\<lparr>wbuff := (wbuff s)[i := v]\<rparr> else s\<lparr>overrun := True\<rparr>)"

text \<open>
  The body of the inner \<^verbatim>\<open>for\<close>:
  \<^verbatim>\<open>data = Mp3ReadRegister(SCI_HDAT0); wbuff[2 * j] = data >> 8; wbuff[2 * j + 1] = data & 0xFF;\<close>
  The index \<^verbatim>\<open>2 * j\<close> is computed in \<^verbatim>\<open>int\<close>, so it does not wrap.
\<close>

definition stage_word :: "env \<Rightarrow> u8 \<Rightarrow> st \<Rightarrow> st" where
  "stage_word e j s =
     (let (data, s1) = Mp3ReadRegister e SCI_HDAT0 s;
          s2 = wbuff_store (2 * unat j) (ucast (drop_bit 8 data)) s1
      in wbuff_store (2 * unat j + 1) (ucast (data AND 0xFF)) s2)"

text \<open>\<^verbatim>\<open>for (uint8_t j = 0; j < wordsToWrite; j++)\<close>, entered with \<open>j = 0\<close>.\<close>

function stage_loop :: "env \<Rightarrow> u8 \<Rightarrow> u8 \<Rightarrow> st \<Rightarrow> st" where
  "stage_loop e wordsToWrite j s =
     (if j < wordsToWrite then stage_loop e wordsToWrite (j + 1) (stage_word e j s) else s)"
  by pat_completeness auto
termination
proof (relation "measure (\<lambda>(e, w, j, s). unat w - unat j)")
  show "wf (measure (\<lambda>(e :: env, w :: u8, j :: u8, s :: st). unat w - unat j))"
    by simp
next
  fix e :: env and wordsToWrite j :: u8 and s :: st
  assume "j < wordsToWrite"
  then have "unat (j + 1) = Suc (unat j)" and "unat j < unat wordsToWrite"
    by unat_arith+
  then show "((e, wordsToWrite, j + 1, stage_word e j s), (e, wordsToWrite, j, s))
      \<in> measure (\<lambda>(e, w, j, s). unat w - unat j)"
    by simp
qed

declare stage_loop.simps [simp del]

text \<open>
  \<^verbatim>\<open>file.write(wbuff, n)\<close> appends the first \<open>n\<close> bytes of the buffer to the file; asking
  for more than the buffer holds reads outside it. \<^verbatim>\<open>file.write(b)\<close> appends one byte.
\<close>

definition file_write :: "nat \<Rightarrow> st \<Rightarrow> st" where
  "file_write n s =
     (if n \<le> length (wbuff s) then s\<lparr>sink := sink s @ take n (wbuff s)\<rparr>
      else s\<lparr>sink := sink s @ take n (wbuff s), overrun := True\<rparr>)"

definition file_write_byte :: "u8 \<Rightarrow> st \<Rightarrow> st" where
  "file_write_byte b s = s\<lparr>sink := sink s @ [b]\<rparr>"

text \<open>
  One pass of the outer \<^verbatim>\<open>for (i = 0; i < 2; i++)\<close>: stage \<^verbatim>\<open>wordsToWrite\<close> words, then
  \<^verbatim>\<open>if (wordsToWrite) file.write(wbuff, 2 * wordsToWrite);\<close>. (The older copy of the
  sketch calls \<^verbatim>\<open>file.write\<close> without the test; with a count of 0 it writes nothing.)
\<close>

definition transfer_group :: "env \<Rightarrow> u8 \<Rightarrow> st \<Rightarrow> st" where
  "transfer_group e wordsToWrite s =
     (let s1 = stage_loop e wordsToWrite 0 s
      in if wordsToWrite \<noteq> 0 then file_write (2 * unat wordsToWrite) s1 else s1)"

section \<open>The drain sub-loop\<close>

text \<open>
  The block under \<^verbatim>\<open>if (wordsToRead < 256)\<close>: the state becomes 3, the last word is read,
  its high byte is written, \<^verbatim>\<open>SCI_AICTRL3\<close> is read twice, and the low byte is written
  when bit 2 of the second reading is clear.
\<close>

definition last_word :: "env \<Rightarrow> st \<Rightarrow> st" where
  "last_word e s =
     (let s1 = set_rec_state 3 s;
          (data, s2) = Mp3ReadRegister e SCI_HDAT0 s1;
          s3 = file_write_byte (ucast (drop_bit 8 data)) s2;
          (_, s4) = Mp3ReadRegister e SCI_AICTRL3 s3;
          (status, s5) = Mp3ReadRegister e SCI_AICTRL3 s4
      in if status AND push_bit 2 1 = 0 then file_write_byte (ucast (data AND 0xFF)) s5
         else s5)"

text \<open>
  The values the body of the sub-loop computes before it transfers anything:
  \<^verbatim>\<open>wordsToRead = min(wordsWaiting, 256); wordsWaiting -= wordsToRead;\<close>
  \<^verbatim>\<open>if (rec_state == 2 && !wordsWaiting) {wordsToRead--;}\<close>
  \<^verbatim>\<open>wordsToWrite = wordsToRead / 2;\<close>
  \<^verbatim>\<open>wordsToRead\<close> is a \<^verbatim>\<open>uint16_t\<close> and \<^verbatim>\<open>wordsToWrite\<close> a \<^verbatim>\<open>uint8_t\<close>.
\<close>

definition words_left :: "u16 \<Rightarrow> u16" where
  "words_left wordsWaiting = wordsWaiting - min wordsWaiting 256"

definition words_to_read :: "st \<Rightarrow> u16 \<Rightarrow> u16" where
  "words_to_read s wordsWaiting =
     (let wordsToRead = min wordsWaiting 256
      in if rec_state s = 2 \<and> words_left wordsWaiting = 0 then wordsToRead - 1
         else wordsToRead)"

definition words_to_write :: "st \<Rightarrow> u16 \<Rightarrow> u8" where
  "words_to_write s wordsWaiting = ucast (words_to_read s wordsWaiting div 2)"

definition drain_body :: "env \<Rightarrow> u16 \<Rightarrow> st \<Rightarrow> st" where
  "drain_body e wordsWaiting s =
     (let wordsToRead = words_to_read s wordsWaiting;
          wordsToWrite = words_to_write s wordsWaiting;
          s1 = transfer_group e wordsToWrite (transfer_group e wordsToWrite s)
      in if wordsToRead < 256 then last_word e s1 else s1)"

text \<open>\<^verbatim>\<open>wordsWaiting >= ((rec_state < 2) ? 256 : 1)\<close>\<close>

definition drain_guard :: "st \<Rightarrow> u16 \<Rightarrow> bool" where
  "drain_guard s wordsWaiting = (wordsWaiting \<ge> (if rec_state s < 2 then 256 else 1))"

text \<open>
  The sub-loop ends: while the guard holds at least one word is waiting, and each round
  takes at least one away.
\<close>

function drain :: "env \<Rightarrow> u16 \<Rightarrow> st \<Rightarrow> st" where
  "drain e wordsWaiting s =
     (if drain_guard s wordsWaiting
      then drain e (words_left wordsWaiting) (drain_body e wordsWaiting s) else s)"
  by pat_completeness auto
termination
proof (relation "measure (\<lambda>(e, w, s). unat w)")
  show "wf (measure (\<lambda>(e :: env, w :: u16, s :: st). unat w))"
    by simp
next
  fix e :: env and wordsWaiting :: u16 and s :: st
  assume "drain_guard s wordsWaiting"
  then have "unat (words_left wordsWaiting) < unat wordsWaiting"
    unfolding drain_guard_def words_left_def min_def
    by (simp split: if_splits; unat_arith)
  then show "((e, words_left wordsWaiting, drain_body e wordsWaiting s), (e, wordsWaiting, s))
      \<in> measure (\<lambda>(e, w, s). unat w)"
    by simp
qed

declare drain.simps [simp del]

section \<open>The recording loop\<close>

text \<open>
  \<^verbatim>\<open>if (keypad.getKey() && !rec_state) { rec_state = 1; Mp3WriteRegister(SCI_AICTRL3, 1); }\<close>
\<close>

definition poll_keypad :: "env \<Rightarrow> st \<Rightarrow> st" where
  "poll_keypad e s =
     (if getKey e (polls s) \<noteq> 0 \<and> rec_state s = 0
      then Mp3WriteRegister SCI_AICTRL3 1 (set_rec_state 1 s) else s)"

text \<open>
  \<^verbatim>\<open>if (Serial.available()) { if (Serial.read() == 's' && !rec_state) { ... } }\<close>;
  \<^verbatim>\<open>'s'\<close> is the byte \<open>0x73\<close>.
\<close>

definition poll_serial :: "env \<Rightarrow> st \<Rightarrow> st" where
  "poll_serial e s =
     (case serial_in e (polls s) of
        None \<Rightarrow> s
      | Some c \<Rightarrow>
          if c = 0x73 \<and> rec_state s = 0
          then Mp3WriteRegister SCI_AICTRL3 1 (set_rec_state 1 s) else s)"

text \<open>
  \<^verbatim>\<open>wordsWaiting = Mp3ReadRegister(SCI_HDAT1);\<close>
  \<^verbatim>\<open>if (rec_state == 1 && Mp3ReadRegister(SCI_AICTRL3) & (1 << 1))\<close>
  \<^verbatim>\<open>{ rec_state = 2; wordsWaiting = Mp3ReadRegister(SCI_HDAT1); }\<close>
  The status register is read only in state 1 (\<^verbatim>\<open>&&\<close> short-circuits).
\<close>

definition read_waiting :: "env \<Rightarrow> st \<Rightarrow> u16 \<times> st" where
  "read_waiting e s =
     (let (wordsWaiting, s1) = Mp3ReadRegister e SCI_HDAT1 s
      in if rec_state s1 = 1
         then (let (status, s2) = Mp3ReadRegister e SCI_AICTRL3 s1
               in if status AND push_bit 1 1 \<noteq> 0
                  then Mp3ReadRegister e SCI_HDAT1 (set_rec_state 2 s2)
                  else (wordsWaiting, s2))
         else (wordsWaiting, s1))"

text \<open>One pass of \<^verbatim>\<open>while (rec_state < 3)\<close>. The elapsed time shown on the LCD is not modelled.\<close>

definition loop_body :: "env \<Rightarrow> st \<Rightarrow> st" where
  "loop_body e s =
     (let s1 = poll_serial e (poll_keypad e s);
          (wordsWaiting, s2) = read_waiting e s1;
          s3 = drain e wordsWaiting s2
      in s3\<lparr>polls := Suc (polls s3)\<rparr>)"

partial_function (option) record_loop :: "env \<Rightarrow> st \<Rightarrow> st option" where
  "record_loop e s = (if rec_state s < 3 then record_loop e (loop_body e s) else Some s)"

text \<open>
  The first \<open>n\<close> passes of the loop, for statements about runs that are still going (or
  never end).
\<close>

definition loop_pass :: "env \<Rightarrow> st \<Rightarrow> st" where
  "loop_pass e s = (if rec_state s < 3 then loop_body e s else s)"

definition loop_passes :: "env \<Rightarrow> nat \<Rightarrow> st \<Rightarrow> st" where
  "loop_passes e n s = (loop_pass e ^^ n) s"

section \<open>The function \<^verbatim>\<open>record\<close>\<close>

text \<open>
  Steps 1 to 4 of the sketch: clock multiplier and wait, clear \<^verbatim>\<open>SCI_BASS\<close>, soft reset
  and wait, interrupt mask (\<^verbatim>\<open>VS1053_INT_ENABLE\<close> is \<open>0xC01A\<close>).
\<close>

definition setup_device :: "env \<Rightarrow> st \<Rightarrow> st option" where
  "setup_device e s =
     do {
       s1 \<leftarrow> wait_ready e (Mp3WriteRegister SCI_CLOCKF 0xC000 s);
       let s2 = Mp3WriteRegister SCI_BASS 0 s1;
       let (m, s3) = Mp3ReadRegister e SCI_MODE s2;
       s4 \<leftarrow> wait_ready e (Mp3WriteRegister SCI_MODE (m OR sm_reset e) s3);
       Some (Mp3WriteRegister SCI_WRAM 0x2 (Mp3WriteRegister SCI_WRAMADDR 0xC01A s4))
     }"

text \<open>Steps 6 to 12: mode bits, recording level, AGC, stop flag, encoder start, wait.\<close>

definition start_encoder :: "env \<Rightarrow> st \<Rightarrow> st option" where
  "start_encoder e s =
     (let mode = (if use_linein e then sm_line1 e OR sm_adpcm e OR sm_sdinew e
                  else sm_adpcm e OR sm_sdinew e);
          s1 = Mp3WriteRegister SCI_MODE mode s;
          s2 = Mp3WriteRegister SCI_AICTRL1 1024 s1;
          s3 = Mp3WriteRegister SCI_AICTRL2 0 s2;
          s4 = Mp3WriteRegister SCI_AICTRL3 0 s3;
          s5 = Mp3WriteRegister SCI_AIADDR 0x34 s4
      in wait_ready e s5)"

text \<open>
  The calls to the library and to the card: \<^verbatim>\<open>VSLoadUserCode(name)\<close> returns non-zero
  when the plug-in cannot be loaded, \<^verbatim>\<open>file.open(name, O_RDWR | O_CREAT)\<close> returns
  whether the file is open, \<^verbatim>\<open>file.close()\<close> closes it. Each call is logged.
\<close>

definition VSLoadUserCode :: "env \<Rightarrow> string \<Rightarrow> st \<Rightarrow> u8 \<times> st" where
  "VSLoadUserCode e name s =
     (load_result e name, s\<lparr>events := events s @ [LoadPlugin name (load_result e name)]\<rparr>)"

definition file_open :: "env \<Rightarrow> string \<Rightarrow> st \<Rightarrow> bool \<times> st" where
  "file_open e name s = (open_ok e name, s\<lparr>events := events s @ [FileOpen name (open_ok e name)]\<rparr>)"

definition file_close :: "st \<Rightarrow> st" where
  "file_close s = s\<lparr>events := events s @ [FileClose]\<rparr>"

text \<open>After the loop: \<^verbatim>\<open>file.close()\<close> and a soft reset.\<close>

definition finish :: "env \<Rightarrow> st \<Rightarrow> st" where
  "finish e s =
     (let s1 = file_close s;
          (m, s2) = Mp3ReadRegister e SCI_MODE s1
      in Mp3WriteRegister SCI_MODE (m OR sm_reset e) s2)"

text \<open>
  \<^verbatim>\<open>uint8_t record(char *filename)\<close>. A null \<^verbatim>\<open>filename\<close> is \<open>None\<close>. The result is the
  returned code with the final state, or \<open>None\<close> when the call does not return. The
  messages printed on the serial port are not modelled.
\<close>

definition record_fn :: "env \<Rightarrow> string option \<Rightarrow> (u8 \<times> st) option" where
  "record_fn e filename =
     do {
       s1 \<leftarrow> setup_device e (set_rec_state 0 st0);
       let (err, s2) = VSLoadUserCode e ''oggenc.053'' s1;
       if err \<noteq> 0 then Some (1, s2)
       else (case filename of
               None \<Rightarrow> Some (3, s2)
             | Some name \<Rightarrow>
                 (let (opened, s3) = file_open e name s2
                  in if \<not> opened then Some (2, s3)
                     else do {
                       s4 \<leftarrow> start_encoder e s3;
                       s5 \<leftarrow> record_loop e s4;
                       Some (0, finish e s5)
                     }))
     }"

section \<open>The stream of bytes the file should receive\<close>

text \<open>
  The codec hands out the recording as 16-bit words through \<^verbatim>\<open>SCI_HDAT0\<close>, high byte
  first. \<open>hdat0_byte e k\<close> is byte \<open>k\<close> of that stream: the high byte of word
  \<open>k div 2\<close> when \<open>k\<close> is even, its low byte when \<open>k\<close> is odd.
\<close>

definition hdat0_byte :: "env \<Rightarrow> nat \<Rightarrow> u8" where
  "hdat0_byte e k =
     (let data = reg_read e SCI_HDAT0 (k div 2)
      in if even k then ucast (drop_bit 8 data) else ucast (data AND 0xFF))"

text \<open>Bytes \<open>a\<close> to \<open>b - 1\<close> of that stream.\<close>

definition hdat0_bytes :: "env \<Rightarrow> nat \<Rightarrow> nat \<Rightarrow> u8 list" where
  "hdat0_bytes e a b = map (hdat0_byte e) [a ..< b]"

section \<open>Well-formed histories of \<^verbatim>\<open>rec_state\<close>\<close>

text \<open>
  The values assigned to \<^verbatim>\<open>rec_state\<close> so far are an initial part of 0, 1, 2, 3, and
  the variable holds the last of them.
\<close>

definition trace_ok :: "st \<Rightarrow> bool" where
  "trace_ok s = (visited s \<noteq> [] \<and> prefix (visited s) [0, 1, 2, 3] \<and> rec_state s = last (visited s))"

section \<open>A codec that is ready when asked\<close>

text \<open>
  Each DREQ wait samples the clock once for \<^verbatim>\<open>timer\<close> and then looks at the next
  sample. In a well-behaved run DREQ is high there and at most 100 ms have passed.
\<close>

definition always_ready :: "env \<Rightarrow> bool" where
  "always_ready e = (\<forall>k. dreq e (Suc k) \<and> millis e (Suc k) - millis e k \<le> 100)"

text \<open>The register writes of steps 1 to 4 and of steps 6 to 12, as the codec sees them.\<close>

definition setup_writes :: "env \<Rightarrow> nat \<Rightarrow> event list" where
  "setup_writes e n =
     [RegWrite SCI_CLOCKF 0xC000, RegWrite SCI_BASS 0,
      RegWrite SCI_MODE (reg_read e SCI_MODE n OR sm_reset e),
      RegWrite SCI_WRAMADDR 0xC01A, RegWrite SCI_WRAM 0x2]"

definition encoder_writes :: "env \<Rightarrow> event list" where
  "encoder_writes e =
     [RegWrite SCI_MODE (if use_linein e then sm_line1 e OR sm_adpcm e OR sm_sdinew e
                         else sm_adpcm e OR sm_sdinew e),
      RegWrite SCI_AICTRL1 1024, RegWrite SCI_AICTRL2 0, RegWrite SCI_AICTRL3 0,
      RegWrite SCI_AIADDR 0x34]"

text \<open>
  The state in which the recording loop is entered when the codec is ready at every wait,
  the plug-in loads and the file \<open>name\<close> opens.
\<close>

definition loop_entry :: "env \<Rightarrow> string \<Rightarrow> st" where
  "loop_entry e name =
     st0\<lparr>visited := [0],
         events := setup_writes e 0 @ [LoadPlugin ''oggenc.053'' 0, FileOpen name True] @
                   encoder_writes e,
         reads := (\<lambda>_. 0)(SCI_MODE := 1), now := 6\<rparr>"

section \<open>Concrete environments\<close>

text \<open>
  A quiet bench set-up: DREQ is high at once, the clock stands still, every register reads
  0, the plug-in loads, the card accepts any file name, and nobody presses a key or sends a
  byte. The mode bits are the ones of the VS1053 data sheet.
\<close>

definition env_idle :: env where
  "env_idle =
     \<lparr>dreq = (\<lambda>_. True), millis = (\<lambda>_. 0), reg_read = (\<lambda>_ _. 0), load_result = (\<lambda>_. 0),
      open_ok = (\<lambda>_. True), getKey = (\<lambda>_. 0), serial_in = (\<lambda>_. None), use_linein = False,
      sm_reset = 0x0004, sm_adpcm = 0x1000, sm_sdinew = 0x0800, sm_line1 = 0x4000\<rparr>"

text \<open>A codec that never raises DREQ.\<close>

definition env_stuck :: env where
  "env_stuck = env_idle\<lparr>dreq := (\<lambda>_. False)\<rparr>"

text \<open>
  Scenario A of the specification: the stop key (\<^verbatim>\<open>'5'\<close>) is down at the first poll, the
  status register shows the stop acknowledged (bit 1) with bit 2 clear, and the codec
  never reports a waiting word.
\<close>

definition env_stop_empty :: env where
  "env_stop_empty =
     env_idle\<lparr>getKey := (\<lambda>i. if i = 0 then 0x35 else 0),
              reg_read := (\<lambda>r n. if r = SCI_AICTRL3 then 2 else 0)\<rparr>"

text \<open>
  The same, but the codec reports one waiting word when asked again after the
  acknowledgement, and that word is \<open>0xABCD\<close>.
\<close>

definition env_stop_one :: env where
  "env_stop_one =
     env_idle\<lparr>getKey := (\<lambda>i. if i = 0 then 0x35 else 0),
              reg_read := (\<lambda>r n. if r = SCI_AICTRL3 then 2
                                  else if r = SCI_HDAT1 \<and> n = 1 then 1
                                  else if r = SCI_HDAT0 then 0xABCD else 0)\<rparr>"

text \<open>
  Scenario C of the specification: the codec reports 300, 300 and then 40 waiting words
  (40 again when asked after the acknowledgement, 0 from then on), the stop key is down at
  the third poll, and the stop is acknowledged at once with bit 2 clear. Word \<open>n\<close> of
  the recording is \<open>n\<close>.
\<close>

definition env_scenario_c :: env where
  "env_scenario_c =
     env_idle\<lparr>getKey := (\<lambda>i. if i = 2 then 0x35 else 0),
              reg_read := (\<lambda>r n. if r = SCI_AICTRL3 then 2
                                  else if r = SCI_HDAT1
                                       then (if n < 2 then 300 else if n < 4 then 40 else 0)
                                  else if r = SCI_HDAT0 then word_of_nat n else 0)\<rparr>"

text \<open>A card without the plug-in file, and a card on which no file can be opened.\<close>

definition env_no_plugin :: env where
  "env_no_plugin = env_idle\<lparr>load_result := (\<lambda>_. 1)\<rparr>"

definition env_no_card :: env where
  "env_no_card = env_idle\<lparr>open_ok := (\<lambda>_. False)\<rparr>"

text \<open>A state of the recording loop after the stop has been acknowledged.\<close>

definition st_draining :: st where
  "st_draining = st0\<lparr>rec_state := 2, visited := [0, 1, 2]\<rparr>"

text \<open>
  Scenario C read to the letter: the four counts 300, 300, 40, 0 are what four successive
  readings of \<^verbatim>\<open>SCI_HDAT1\<close> return (0 from then on), so that the reading repeated after
  the acknowledgement returns 0.
\<close>

definition env_scenario_c_seq :: env where
  "env_scenario_c_seq =
     env_idle\<lparr>getKey := (\<lambda>i. if i = 2 then 0x35 else 0),
              reg_read := (\<lambda>r n. if r = SCI_AICTRL3 then 2
                                  else if r = SCI_HDAT1
                                       then (if n < 2 then 300 else if n = 2 then 40 else 0)
                                  else if r = SCI_HDAT0 then word_of_nat n else 0)\<rparr>"

text \<open>
  A recording that ends with two words in the codec: the stop key is down at the first
  poll, the stop is acknowledged at once, the reading of \<^verbatim>\<open>SCI_HDAT1\<close> repeated after
  the acknowledgement reports 2 waiting words (\<open>0x1122\<close>, then \<open>0x3344\<close>), and every
  status reading has bit 2 set.
\<close>

definition env_two_words :: env where
  "env_two_words =
     env_idle\<lparr>getKey := (\<lambda>i. if i = 0 then 0x35 else 0),
              reg_read := (\<lambda>r n. if r = SCI_AICTRL3 then 6
                                  else if r = SCI_HDAT1 \<and> n = 1 then 2
                                  else if r = SCI_HDAT0 then (if n = 0 then 0x1122 else 0x3344)
                                  else 0)\<rparr>"

section \<open>The DREQ wait\<close>

lemma wait_dreq_exit_sample:
  assumes "wait_dreq e timer k = Some r"
  shows "\<exists>n\<ge>k. r = Suc n \<and> dreq e n \<and> millis e n - timer \<le> 100"
proof (rule wait_dreq.raw_induct
    [where P = "\<lambda>e timer k r. \<exists>n\<ge>k. r = Suc n \<and> dreq e n \<and> millis e n - timer \<le> 100",
      OF _ assms])
  fix f e timer k r
  assume IH: "\<And>e timer k r. f e timer k = Some r \<Longrightarrow>
      \<exists>n\<ge>k. r = Suc n \<and> dreq e n \<and> millis e n - timer \<le> 100"
    and step: "(if \<not> dreq e k \<or> millis e k - timer > 100 then f e timer (Suc k)
      else Some (Suc k)) = Some r"
  show "\<exists>n\<ge>k. r = Suc n \<and> dreq e n \<and> millis e n - timer \<le> 100"
  proof (cases "\<not> dreq e k \<or> millis e k - timer > 100")
    case True
    with step have "f e timer (Suc k) = Some r" by simp
    from IH [OF this] obtain n
      where "n \<ge> Suc k" "r = Suc n" "dreq e n" "millis e n - timer \<le> 100"
      by blast
    then show ?thesis by (intro exI [of _ n]) simp
  next
    case False
    then have "dreq e k" and le: "millis e k - timer \<le> 100" by (simp_all add: not_less)
    moreover from False step have "r = Suc k" by simp
    ultimately show ?thesis by blast
  qed
qed

lemma wait_dreq_never:
  assumes "\<forall>n\<ge>k. \<not> dreq e n \<or> millis e n - timer > 100"
  shows "wait_dreq e timer k = None"
proof (cases "wait_dreq e timer k")
  case None
  then show ?thesis .
next
  case (Some r)
  from wait_dreq_exit_sample [OF this] assms show ?thesis
    by (auto simp: not_le)
qed

lemma wait_dreq_now:
  "dreq e k \<Longrightarrow> millis e k - timer \<le> 100 \<Longrightarrow> wait_dreq e timer k = Some (Suc k)"
  by (subst wait_dreq.simps) (simp add: leD)

lemma wait_dreq_later:
  "\<not> dreq e k \<or> millis e k - timer > 100 \<Longrightarrow> wait_dreq e timer k = wait_dreq e timer (Suc k)"
  by (subst wait_dreq.simps) simp

section \<open>Staging words into the buffer\<close>

lemmas prim_defs =
  set_rec_state_def Mp3WriteRegister_def Mp3ReadRegister_def wbuff_store_def
  file_write_def file_write_byte_def

lemma stage_word_frame:
  "rec_state (stage_word e j s) = rec_state s"
  "visited (stage_word e j s) = visited s"
  "sink (stage_word e j s) = sink s"
  "events (stage_word e j s) = events s"
  "now (stage_word e j s) = now s"
  "polls (stage_word e j s) = polls s"
  "reads (stage_word e j s) = (reads s)(SCI_HDAT0 := Suc (reads s SCI_HDAT0))"
  by (simp_all add: stage_word_def prim_defs Let_def)

lemma stage_word_wbuff:
  "2 * unat j + 1 < length (wbuff s) \<Longrightarrow>
   wbuff (stage_word e j s) =
     (wbuff s)[2 * unat j := hdat0_byte e (2 * reads s SCI_HDAT0),
               2 * unat j + 1 := hdat0_byte e (2 * reads s SCI_HDAT0 + 1)]"
  "2 * unat j + 1 < length (wbuff s) \<Longrightarrow> overrun (stage_word e j s) = overrun s"
  by (simp_all add: stage_word_def prim_defs Let_def hdat0_byte_def)

lemma stage_loop_frame:
  "rec_state (stage_loop e w j s) = rec_state s \<and>
   visited (stage_loop e w j s) = visited s \<and>
   sink (stage_loop e w j s) = sink s \<and>
   events (stage_loop e w j s) = events s \<and>
   now (stage_loop e w j s) = now s \<and>
   polls (stage_loop e w j s) = polls s \<and>
   reads (stage_loop e w j s) =
     (reads s)(SCI_HDAT0 := reads s SCI_HDAT0 + (unat w - unat j))"
proof (induction e w j s rule: stage_loop.induct)
  case (1 e w j s)
  show ?case
  proof (cases "j < w")
    case True
    then have "unat (j + 1) = Suc (unat j)" "unat j < unat w"
      by unat_arith+
    with True 1 show ?thesis
      by (subst (1 2 3 4 5 6 7) stage_loop.simps) (auto simp: stage_word_frame fun_eq_iff)
  next
    case False
    then have "unat w - unat j = 0" by unat_arith
    with False show ?thesis
      by (subst (1 2 3 4 5 6 7) stage_loop.simps) simp
  qed
qed

lemma stage_loop_wbuff:
  "unat w \<le> 128 \<Longrightarrow> length (wbuff s) = 256 \<Longrightarrow>
   length (wbuff (stage_loop e w j s)) = 256 \<and>
   overrun (stage_loop e w j s) = overrun s \<and>
   (\<forall>i < 2 * unat w. wbuff (stage_loop e w j s) ! i =
      (if i < 2 * unat j then wbuff s ! i
       else hdat0_byte e (2 * reads s SCI_HDAT0 + (i - 2 * unat j))))"
proof (induction e w j s rule: stage_loop.induct)
  case (1 e w j s)
  show ?case
  proof (cases "j < w")
    case True
    then have j: "unat (j + 1) = Suc (unat j)" "unat j < unat w"
      by unat_arith+
    with "1.prems" have idx: "2 * unat j + 1 < length (wbuff s)" by simp
    let ?s = "stage_word e j s"
    have len: "length (wbuff ?s) = 256"
      using idx "1.prems" by (simp add: stage_word_wbuff)
    note IH = "1.IH" [OF True "1.prems"(1) len]
    have unfold: "stage_loop e w j s = stage_loop e w (j + 1) ?s"
      using True by (subst stage_loop.simps) simp
    show ?thesis
      unfolding unfold
    proof (intro conjI allI impI)
      show "length (wbuff (stage_loop e w (j + 1) ?s)) = 256" using IH by simp
      show "overrun (stage_loop e w (j + 1) ?s) = overrun s"
        using IH idx by (simp add: stage_word_wbuff)
    next
      fix i assume i: "i < 2 * unat w"
      with IH have "wbuff (stage_loop e w (j + 1) ?s) ! i =
        (if i < 2 * unat (j + 1) then wbuff ?s ! i
         else hdat0_byte e (2 * reads ?s SCI_HDAT0 + (i - 2 * unat (j + 1))))"
        by blast
      also have "\<dots> = (if i < 2 * unat j then wbuff s ! i
         else hdat0_byte e (2 * reads s SCI_HDAT0 + (i - 2 * unat j)))"
      proof -
        consider "i < 2 * unat j" | "i = 2 * unat j" | "i = 2 * unat j + 1" | "i \<ge> 2 * unat j + 2"
          by linarith
        then show ?thesis
        proof cases
          case 1
          then show ?thesis using idx j by (simp add: stage_word_wbuff)
        next
          case 2
          then show ?thesis using idx j by (simp add: stage_word_wbuff)
        next
          case 3
          then show ?thesis using idx j by (simp add: stage_word_wbuff)
        next
          case 4
          then have "2 * Suc (reads s SCI_HDAT0) + (i - 2 * Suc (unat j)) =
              2 * reads s SCI_HDAT0 + (i - 2 * unat j)" by simp
          with 4 show ?thesis using j by (simp add: stage_word_frame)
        qed
      qed
      finally show "wbuff (stage_loop e w (j + 1) ?s) ! i =
        (if i < 2 * unat j then wbuff s ! i
         else hdat0_byte e (2 * reads s SCI_HDAT0 + (i - 2 * unat j)))" .
    qed
  next
    case False
    then have "unat w \<le> unat j" by unat_arith
    with False "1.prems" show ?thesis
      by (subst (1 2 3) stage_loop.simps) simp
  qed
qed

section \<open>One pass of the transfer and the last word\<close>

lemma take_staged:
  assumes "length xs = 256" "n \<le> 128" "\<forall>i < 2 * n. xs ! i = f (a + i)"
  shows "take (2 * n) xs = map f [a ..< a + 2 * n]"
proof (rule nth_equalityI)
  show "length (take (2 * n) xs) = length (map f [a ..< a + 2 * n])"
    using assms by simp
next
  fix i assume "i < length (take (2 * n) xs)"
  then have "i < 2 * n" by simp
  with assms show "take (2 * n) xs ! i = map f [a ..< a + 2 * n] ! i"
    by simp
qed

lemma stage_loop_zero: "stage_loop e 0 j s = s"
  by (subst stage_loop.simps) simp

lemma transfer_group_frame:
  "rec_state (transfer_group e w s) = rec_state s"
  "visited (transfer_group e w s) = visited s"
  "events (transfer_group e w s) = events s"
  "now (transfer_group e w s) = now s"
  "polls (transfer_group e w s) = polls s"
  "reads (transfer_group e w s) = (reads s)(SCI_HDAT0 := reads s SCI_HDAT0 + unat w)"
  using stage_loop_frame [of e w 0 s]
  by (simp_all add: transfer_group_def Let_def file_write_def stage_loop_zero)

lemma transfer_group_sink:
  assumes "unat w \<le> 128" "length (wbuff s) = 256"
  shows "sink (transfer_group e w s) =
           sink s @ map (hdat0_byte e) [2 * reads s SCI_HDAT0 ..< 2 * reads s SCI_HDAT0 + 2 * unat w]"
    and "length (wbuff (transfer_group e w s)) = 256"
    and "overrun (transfer_group e w s) = overrun s"
proof -
  let ?s = "stage_loop e w 0 s"
  from stage_loop_wbuff [OF assms, of e 0]
  have len: "length (wbuff ?s) = 256" and ov: "overrun ?s = overrun s"
    and nth: "\<forall>i < 2 * unat w. wbuff ?s ! i = hdat0_byte e (2 * reads s SCI_HDAT0 + i)"
    by simp_all
  have tk: "take (2 * unat w) (wbuff ?s) =
      map (hdat0_byte e) [2 * reads s SCI_HDAT0 ..< 2 * reads s SCI_HDAT0 + 2 * unat w]"
    by (rule take_staged [OF len assms(1) nth])
  have snk: "sink ?s = sink s" using stage_loop_frame [of e w 0 s] by simp
  have w0: "w = 0 \<Longrightarrow> unat w = 0" by simp
  show "sink (transfer_group e w s) =
           sink s @ map (hdat0_byte e) [2 * reads s SCI_HDAT0 ..< 2 * reads s SCI_HDAT0 + 2 * unat w]"
    using len tk snk assms(1) w0
    by (auto simp: transfer_group_def Let_def file_write_def stage_loop_zero)
  show "length (wbuff (transfer_group e w s)) = 256"
    using len assms(2) by (simp add: transfer_group_def Let_def file_write_def stage_loop_zero)
  show "overrun (transfer_group e w s) = overrun s"
    using len ov assms(1) by (simp add: transfer_group_def Let_def file_write_def stage_loop_zero)
qed

text \<open>The two passes of the outer \<^verbatim>\<open>for\<close>.\<close>

lemma transfer_twice:
  assumes "unat w \<le> 128" "length (wbuff s) = 256"
  shows "sink (transfer_group e w (transfer_group e w s)) =
           sink s @ map (hdat0_byte e) [2 * reads s SCI_HDAT0 ..< 2 * reads s SCI_HDAT0 + 4 * unat w]"
    and "length (wbuff (transfer_group e w (transfer_group e w s))) = 256"
    and "overrun (transfer_group e w (transfer_group e w s)) = overrun s"
    and "reads (transfer_group e w (transfer_group e w s)) =
           (reads s)(SCI_HDAT0 := reads s SCI_HDAT0 + 2 * unat w)"
proof -
  let ?s = "transfer_group e w s"
  note one = transfer_group_sink [OF assms, of e]
  note two = transfer_group_sink [OF assms(1) one(2), of e]
  have eq: "2 * reads s SCI_HDAT0 + 4 * unat w = (2 * reads s SCI_HDAT0 + 2 * unat w) + 2 * unat w"
    by simp
  have "[2 * reads s SCI_HDAT0 ..< 2 * reads s SCI_HDAT0 + 4 * unat w] =
      [2 * reads s SCI_HDAT0 ..< 2 * reads s SCI_HDAT0 + 2 * unat w] @
      [2 * reads s SCI_HDAT0 + 2 * unat w ..< 2 * reads s SCI_HDAT0 + 2 * unat w + 2 * unat w]"
    unfolding eq by (rule upt_add_eq_append) simp
  then show "sink (transfer_group e w ?s) =
           sink s @ map (hdat0_byte e) [2 * reads s SCI_HDAT0 ..< 2 * reads s SCI_HDAT0 + 4 * unat w]"
    using one(1) two(1) by (simp add: transfer_group_frame algebra_simps)
  show "length (wbuff (transfer_group e w ?s)) = 256" by (rule two(2))
  show "overrun (transfer_group e w ?s) = overrun s" using one(3) two(3) by simp
  show "reads (transfer_group e w ?s) = (reads s)(SCI_HDAT0 := reads s SCI_HDAT0 + 2 * unat w)"
    by (simp add: transfer_group_frame fun_eq_iff)
qed

lemma last_word_fields:
  "rec_state (last_word e s) = 3"
  "visited (last_word e s) = visited s @ [3]"
  "events (last_word e s) = events s"
  "now (last_word e s) = now s"
  "polls (last_word e s) = polls s"
  "wbuff (last_word e s) = wbuff s"
  "overrun (last_word e s) = overrun s"
  "reads (last_word e s) =
     (reads s)(SCI_HDAT0 := Suc (reads s SCI_HDAT0), SCI_AICTRL3 := Suc (Suc (reads s SCI_AICTRL3)))"
  "sink (last_word e s) =
     sink s @ hdat0_byte e (2 * reads s SCI_HDAT0) #
       (if reg_read e SCI_AICTRL3 (Suc (reads s SCI_AICTRL3)) AND 4 = 0
        then [hdat0_byte e (2 * reads s SCI_HDAT0 + 1)] else [])"
  by (auto simp: last_word_def prim_defs Let_def hdat0_byte_def fun_eq_iff)

section \<open>The drain sub-loop: chunk sizes, frame and buffer safety\<close>

lemma words_to_read_full:
  "rec_state s \<noteq> 2 \<Longrightarrow> 256 \<le> wordsWaiting \<Longrightarrow> words_to_read s wordsWaiting = 256"
  by (simp add: words_to_read_def min_def)

lemma words_to_read_more:
  "256 < wordsWaiting \<Longrightarrow> words_to_read s wordsWaiting = 256"
  unfolding words_to_read_def words_left_def min_def
  by (simp add: leD) unat_arith

lemma words_to_read_last:
  "rec_state s = 2 \<Longrightarrow> wordsWaiting \<le> 256 \<Longrightarrow>
     words_to_read s wordsWaiting = wordsWaiting - 1 \<and> words_left wordsWaiting = 0"
  by (simp add: words_to_read_def words_left_def min_def)

lemma words_to_read_le:
  "1 \<le> wordsWaiting \<Longrightarrow> unat (words_to_read s wordsWaiting) \<le> 256"
  unfolding words_to_read_def words_left_def min_def Let_def
  by (simp split: if_splits; unat_arith)

lemma guard_nonzero: "drain_guard s wordsWaiting \<Longrightarrow> 1 \<le> wordsWaiting"
  unfolding drain_guard_def by (simp split: if_splits; unat_arith)

lemma unat_words_to_write:
  assumes "1 \<le> wordsWaiting"
  shows "unat (words_to_write s wordsWaiting) = unat (words_to_read s wordsWaiting) div 2"
    and "unat (words_to_write s wordsWaiting) \<le> 128"
proof -
  from words_to_read_le [OF assms, of s]
  have le: "unat (words_to_read s wordsWaiting) div 2 \<le> 128" by simp
  have "unat (words_to_write s wordsWaiting) =
      unat (words_to_read s wordsWaiting div 2) mod 256"
    by (simp add: words_to_write_def unsigned_ucast_eq take_bit_eq_mod)
  also have "unat (words_to_read s wordsWaiting div 2) = unat (words_to_read s wordsWaiting) div 2"
    by (simp add: unat_div)
  finally show "unat (words_to_write s wordsWaiting) = unat (words_to_read s wordsWaiting) div 2"
    using le by simp
  with le show "unat (words_to_write s wordsWaiting) \<le> 128" by simp
qed

lemma drain_skip: "\<not> drain_guard s wordsWaiting \<Longrightarrow> drain e wordsWaiting s = s"
  by (subst drain.simps) simp

lemma drain_step:
  "drain_guard s wordsWaiting \<Longrightarrow>
     drain e wordsWaiting s = drain e (words_left wordsWaiting) (drain_body e wordsWaiting s)"
  by (subst drain.simps) simp

lemma drain_body_full:
  "words_to_read s wordsWaiting = 256 \<Longrightarrow>
     drain_body e wordsWaiting s = transfer_group e 128 (transfer_group e 128 s)"
  by (simp add: drain_body_def words_to_write_def Let_def)

lemma drain_body_last:
  "words_to_read s wordsWaiting < 256 \<Longrightarrow>
     drain_body e wordsWaiting s =
       last_word e (transfer_group e (words_to_write s wordsWaiting)
                      (transfer_group e (words_to_write s wordsWaiting) s))"
  by (simp add: drain_body_def Let_def)

lemma drain_body_frame:
  "events (drain_body e wordsWaiting s) = events s"
  "now (drain_body e wordsWaiting s) = now s"
  "polls (drain_body e wordsWaiting s) = polls s"
  by (simp_all add: drain_body_def Let_def transfer_group_frame last_word_fields)

lemma drain_frame:
  "events (drain e wordsWaiting s) = events s \<and>
   now (drain e wordsWaiting s) = now s \<and>
   polls (drain e wordsWaiting s) = polls s"
proof (induction e wordsWaiting s rule: drain.induct)
  case (1 e wordsWaiting s)
  show ?case
  proof (cases "drain_guard s wordsWaiting")
    case True
    with 1 show ?thesis by (simp add: drain_step drain_body_frame)
  next
    case False
    then show ?thesis by (simp add: drain_skip)
  qed
qed

lemma drain_body_safe:
  assumes "drain_guard s wordsWaiting" "length (wbuff s) = 256"
  shows "length (wbuff (drain_body e wordsWaiting s)) = 256"
    and "overrun (drain_body e wordsWaiting s) = overrun s"
proof -
  from assms(1) have "1 \<le> wordsWaiting" by (rule guard_nonzero)
  then have w: "unat (words_to_write s wordsWaiting) \<le> 128"
    by (rule unat_words_to_write)
  note tw = transfer_twice [OF w assms(2), of e]
  show "length (wbuff (drain_body e wordsWaiting s)) = 256"
    using tw(2) by (simp add: drain_body_def Let_def last_word_fields)
  show "overrun (drain_body e wordsWaiting s) = overrun s"
    using tw(3) by (simp add: drain_body_def Let_def last_word_fields)
qed

lemma drain_safe:
  "length (wbuff s) = 256 \<Longrightarrow>
     length (wbuff (drain e wordsWaiting s)) = 256 \<and>
     overrun (drain e wordsWaiting s) = overrun s"
proof (induction e wordsWaiting s rule: drain.induct)
  case (1 e wordsWaiting s)
  show ?case
  proof (cases "drain_guard s wordsWaiting")
    case True
    note body = drain_body_safe [OF True "1.prems", of e]
    from "1.IH" [OF True body(1)] body(2) True show ?thesis
      by (simp add: drain_step)
  next
    case False
    with "1.prems" show ?thesis by (simp add: drain_skip)
  qed
qed

section \<open>The history of the state variable\<close>

lemma trace_ok_iff:
  "trace_ok s \<longleftrightarrow>
     (visited s = [0] \<and> rec_state s = 0) \<or> (visited s = [0, 1] \<and> rec_state s = 1) \<or>
     (visited s = [0, 1, 2] \<and> rec_state s = 2) \<or> (visited s = [0, 1, 2, 3] \<and> rec_state s = 3)"
  unfolding trace_ok_def by (auto simp: prefix_Cons)

lemma poll_keypad_trace: "trace_ok s \<Longrightarrow> trace_ok (poll_keypad e s)"
  by (auto simp: trace_ok_iff poll_keypad_def prim_defs)

lemma poll_serial_trace: "trace_ok s \<Longrightarrow> trace_ok (poll_serial e s)"
  by (auto simp: trace_ok_iff poll_serial_def prim_defs split: option.splits)

lemma read_waiting_trace: "trace_ok s \<Longrightarrow> trace_ok (snd (read_waiting e s))"
  by (auto simp: trace_ok_iff read_waiting_def prim_defs Let_def split: prod.splits)

lemma poll_keypad_state: "rec_state s < 3 \<Longrightarrow> rec_state (poll_keypad e s) < 3"
  by (auto simp: poll_keypad_def prim_defs)

lemma poll_serial_state: "rec_state s < 3 \<Longrightarrow> rec_state (poll_serial e s) < 3"
  by (auto simp: poll_serial_def prim_defs split: option.splits)

lemma read_waiting_state: "rec_state s < 3 \<Longrightarrow> rec_state (snd (read_waiting e s)) < 3"
  by (auto simp: read_waiting_def prim_defs Let_def split: prod.splits)

lemma drain_body_trace:
  assumes "trace_ok s" "rec_state s < 3" "drain_guard s wordsWaiting"
  shows "trace_ok (drain_body e wordsWaiting s)"
    and "rec_state (drain_body e wordsWaiting s) = 3 \<longrightarrow> words_left wordsWaiting = 0"
proof -
  consider (rec) "rec_state s \<noteq> 2" "256 \<le> wordsWaiting"
    | (more) "rec_state s = 2" "256 < wordsWaiting"
    | (last) "rec_state s = 2" "wordsWaiting \<le> 256"
    using assms(2,3) unfolding drain_guard_def
    by (cases "rec_state s = 2") (auto simp: not_less split: if_splits, unat_arith+)
  then have "trace_ok (drain_body e wordsWaiting s) \<and>
      (rec_state (drain_body e wordsWaiting s) = 3 \<longrightarrow> words_left wordsWaiting = 0)"
  proof cases
    case rec
    then have "drain_body e wordsWaiting s = transfer_group e 128 (transfer_group e 128 s)"
      by (simp add: drain_body_full words_to_read_full)
    with assms(1,2) show ?thesis
      by (auto simp: transfer_group_frame trace_ok_def)
  next
    case more
    then have "drain_body e wordsWaiting s = transfer_group e 128 (transfer_group e 128 s)"
      by (simp add: drain_body_full words_to_read_more)
    with assms(1,2) show ?thesis
      by (auto simp: transfer_group_frame trace_ok_def)
  next
    case last
    from assms(3) have "1 \<le> wordsWaiting" by (rule guard_nonzero)
    with last words_to_read_last [OF last]
    have lt: "words_to_read s wordsWaiting < 256" and z: "words_left wordsWaiting = 0"
      by (simp, unat_arith, simp)
    from assms(1) last(1) have "visited s = [0, 1, 2]"
      by (auto simp: trace_ok_iff)
    then show ?thesis
      using z by (simp add: drain_body_last [OF lt] last_word_fields transfer_group_frame trace_ok_iff)
  qed
  then show "trace_ok (drain_body e wordsWaiting s)"
    and "rec_state (drain_body e wordsWaiting s) = 3 \<longrightarrow> words_left wordsWaiting = 0"
    by simp_all
qed

section \<open>The recording loop: histories and termination\<close>

lemma drain_trace:
  "trace_ok s \<Longrightarrow> (rec_state s = 3 \<longrightarrow> wordsWaiting = 0) \<Longrightarrow> trace_ok (drain e wordsWaiting s)"
proof (induction e wordsWaiting s rule: drain.induct)
  case (1 e wordsWaiting s)
  show ?case
  proof (cases "drain_guard s wordsWaiting")
    case True
    then have "1 \<le> wordsWaiting" by (rule guard_nonzero)
    with "1.prems"(2) have "rec_state s \<noteq> 3" by auto
    with "1.prems"(1) have lt: "rec_state s < 3" by (auto simp: trace_ok_iff)
    note body = drain_body_trace [OF "1.prems"(1) lt True, of e]
    from "1.IH" [OF True body] True show ?thesis by (simp add: drain_step)
  next
    case False
    with "1.prems" show ?thesis by (simp add: drain_skip)
  qed
qed

lemma loop_body_trace:
  assumes "trace_ok s" "rec_state s < 3"
  shows "trace_ok (loop_body e s)"
proof -
  let ?s1 = "poll_serial e (poll_keypad e s)"
  have t1: "trace_ok ?s1" and r1: "rec_state ?s1 < 3"
    using assms by (simp_all add: poll_keypad_trace poll_serial_trace poll_keypad_state poll_serial_state)
  obtain ww s2 where rw: "read_waiting e ?s1 = (ww, s2)" by (cases "read_waiting e ?s1")
  from read_waiting_trace [OF t1, of e] read_waiting_state [OF r1, of e] rw
  have t2: "trace_ok s2" and r2: "rec_state s2 < 3" by simp_all
  from r2 have "rec_state s2 = 3 \<longrightarrow> ww = 0" by auto
  with t2 have "trace_ok (drain e ww s2)" by (rule drain_trace)
  then show ?thesis
    using rw by (simp add: loop_body_def Let_def trace_ok_def)
qed

lemma loop_pass_trace: "trace_ok s \<Longrightarrow> trace_ok (loop_pass e s)"
  by (simp add: loop_pass_def loop_body_trace)

lemma loop_passes_trace: "trace_ok s \<Longrightarrow> trace_ok (loop_passes e n s)"
  by (induction n) (simp_all add: loop_passes_def loop_pass_trace)

lemma loop_passes_Suc: "loop_passes e (Suc n) s = loop_passes e n (loop_pass e s)"
  by (simp add: loop_passes_def funpow_swap1)

lemma record_loop_passes:
  assumes "record_loop e s = Some s'"
  shows "\<exists>n. s' = loop_passes e n s \<and> \<not> rec_state s' < 3"
proof (rule record_loop.raw_induct
    [where P = "\<lambda>e s s'. \<exists>n. s' = loop_passes e n s \<and> \<not> rec_state s' < 3", OF _ assms])
  fix f e s s'
  assume IH: "\<And>e s s'. f e s = Some s' \<Longrightarrow> \<exists>n. s' = loop_passes e n s \<and> \<not> rec_state s' < 3"
    and step: "(if rec_state s < 3 then f e (loop_body e s) else Some s) = Some s'"
  show "\<exists>n. s' = loop_passes e n s \<and> \<not> rec_state s' < 3"
  proof (cases "rec_state s < 3")
    case True
    with step have "f e (loop_body e s) = Some s'" by simp
    from IH [OF this] obtain n where "s' = loop_passes e n (loop_body e s)" "\<not> rec_state s' < 3"
      by blast
    with True have "s' = loop_passes e (Suc n) s \<and> \<not> rec_state s' < 3"
      by (simp add: loop_passes_Suc loop_pass_def)
    then show ?thesis by blast
  next
    case False
    with step have "s' = loop_passes e 0 s \<and> \<not> rec_state s' < 3"
      by (simp add: loop_passes_def)
    then show ?thesis by blast
  qed
qed

lemma record_loop_done:
  "\<not> rec_state (loop_passes e n s) < 3 \<Longrightarrow> record_loop e s = Some (loop_passes e n s)"
proof (induction n arbitrary: s)
  case 0
  then show ?case by (subst record_loop.simps) (simp add: loop_passes_def)
next
  case (Suc n)
  show ?case
  proof (cases "rec_state s < 3")
    case True
    with Suc.prems have "\<not> rec_state (loop_passes e n (loop_body e s)) < 3"
      by (simp add: loop_passes_Suc loop_pass_def)
    from Suc.IH [OF this] True show ?thesis
      by (subst record_loop.simps) (simp add: loop_passes_Suc loop_pass_def)
  next
    case False
    have stay: "loop_passes e m s = s" for m
      using False by (induction m) (simp_all add: loop_passes_def loop_pass_def)
    from False show ?thesis
      by (subst record_loop.simps) (simp add: stay)
  qed
qed

lemma record_loop_never:
  assumes "\<forall>n. rec_state (loop_passes e n s) < 3"
  shows "record_loop e s = None"
proof (cases "record_loop e s")
  case None
  then show ?thesis .
next
  case (Some s')
  from record_loop_passes [OF this] assms show ?thesis by auto
qed

section \<open>Configuration steps\<close>

lemma wait_ready_Some:
  "wait_ready e s = Some s' \<Longrightarrow> \<exists>k. s' = s\<lparr>now := k\<rparr>"
  by (auto simp: wait_ready_def split: bind_splits)

lemma wait_ready_ok:
  "always_ready e \<Longrightarrow> wait_ready e s = Some (s\<lparr>now := Suc (Suc (now s))\<rparr>)"
  by (simp add: wait_ready_def always_ready_def wait_dreq_now)

lemma setup_device_Some:
  assumes "setup_device e s = Some s'"
  shows "\<exists>k. s' = s\<lparr>events := events s @ setup_writes e (reads s SCI_MODE),
                    reads := (reads s)(SCI_MODE := Suc (reads s SCI_MODE)), now := k\<rparr>"
proof -
  from assms obtain s1 s4 where
    w1: "wait_ready e (Mp3WriteRegister SCI_CLOCKF 0xC000 s) = Some s1"
    and w2: "wait_ready e (Mp3WriteRegister SCI_MODE (reg_read e SCI_MODE (reads s1 SCI_MODE) OR sm_reset e)
               (snd (Mp3ReadRegister e SCI_MODE (Mp3WriteRegister SCI_BASS 0 s1)))) = Some s4"
    and s': "s' = Mp3WriteRegister SCI_WRAM 0x2 (Mp3WriteRegister SCI_WRAMADDR 0xC01A s4)"
    by (auto simp: setup_device_def Let_def prim_defs split: bind_splits prod.splits)
  from wait_ready_Some [OF w1] obtain k1
    where s1: "s1 = (Mp3WriteRegister SCI_CLOCKF 0xC000 s)\<lparr>now := k1\<rparr>" by blast
  from wait_ready_Some [OF w2] obtain k2
    where s4: "s4 = (Mp3WriteRegister SCI_MODE (reg_read e SCI_MODE (reads s1 SCI_MODE) OR sm_reset e)
               (snd (Mp3ReadRegister e SCI_MODE (Mp3WriteRegister SCI_BASS 0 s1))))\<lparr>now := k2\<rparr>"
    by blast
  have "s' = s\<lparr>events := events s @ setup_writes e (reads s SCI_MODE),
                    reads := (reads s)(SCI_MODE := Suc (reads s SCI_MODE)), now := k2\<rparr>"
    unfolding s' s4 s1 by (simp add: prim_defs setup_writes_def)
  then show ?thesis by blast
qed

lemma setup_device_ok:
  "always_ready e \<Longrightarrow>
   setup_device e s =
     Some (s\<lparr>events := events s @ setup_writes e (reads s SCI_MODE),
             reads := (reads s)(SCI_MODE := Suc (reads s SCI_MODE)), now := now s + 4\<rparr>)"
  by (simp add: setup_device_def wait_ready_ok Let_def prim_defs setup_writes_def)

lemma start_encoder_Some:
  assumes "start_encoder e s = Some s'"
  shows "\<exists>k. s' = s\<lparr>events := events s @ encoder_writes e, now := k\<rparr>"
proof -
  from assms wait_ready_Some obtain k where
    "s' = (Mp3WriteRegister SCI_AIADDR 0x34 (Mp3WriteRegister SCI_AICTRL3 0
            (Mp3WriteRegister SCI_AICTRL2 0 (Mp3WriteRegister SCI_AICTRL1 1024
              (Mp3WriteRegister SCI_MODE (if use_linein e then sm_line1 e OR sm_adpcm e OR sm_sdinew e
                  else sm_adpcm e OR sm_sdinew e) s)))))\<lparr>now := k\<rparr>"
    unfolding start_encoder_def Let_def by blast
  then have "s' = s\<lparr>events := events s @ encoder_writes e, now := k\<rparr>"
    by (simp add: prim_defs encoder_writes_def)
  then show ?thesis by blast
qed

lemma start_encoder_ok:
  "always_ready e \<Longrightarrow>
   start_encoder e s = Some (s\<lparr>events := events s @ encoder_writes e, now := now s + 2\<rparr>)"
  by (simp add: start_encoder_def wait_ready_ok Let_def prim_defs encoder_writes_def)

section \<open>When a wait ends\<close>

lemma wait_dreq_exits:
  "k \<le> n \<Longrightarrow> dreq e n \<Longrightarrow> millis e n - timer \<le> 100 \<Longrightarrow> \<exists>r. wait_dreq e timer k = Some r"
proof (induction "n - k" arbitrary: k)
  case 0
  then have "k = n" by simp
  with 0 show ?case by (simp add: wait_dreq_now)
next
  case (Suc d)
  show ?case
  proof (cases "\<not> dreq e k \<or> millis e k - timer > 100")
    case True
    from Suc.hyps(2) Suc.prems(1) have "d = n - Suc k" "Suc k \<le> n" by simp_all
    from Suc.hyps(1) [OF this Suc.prems(2,3)] True show ?thesis
      by (simp add: wait_dreq_later)
  next
    case False
    then show ?thesis by (simp add: wait_dreq_now not_less)
  qed
qed

lemma record_fn_hangs_in_setup:
  assumes "\<forall>n. \<not> dreq e n"
  shows "record_fn e filename = None"
proof -
  have "wait_ready e s = None" for s
    using assms by (simp add: wait_ready_def wait_dreq_never)
  then have "setup_device e s = None" for s
    by (simp add: setup_device_def)
  then show ?thesis by (simp add: record_fn_def)
qed

section \<open>What record returns\<close>

lemma record_fn_elim:
  assumes "record_fn e filename = Some (r, s')"
  obtains
    (plugin) s1 where "setup_device e (set_rec_state 0 st0) = Some s1"
      "load_result e ''oggenc.053'' \<noteq> 0" "r = 1"
      "s' = snd (VSLoadUserCode e ''oggenc.053'' s1)"
  | (noname) s1 where "setup_device e (set_rec_state 0 st0) = Some s1"
      "load_result e ''oggenc.053'' = 0" "filename = None" "r = 3"
      "s' = snd (VSLoadUserCode e ''oggenc.053'' s1)"
  | (nofile) s1 name where "setup_device e (set_rec_state 0 st0) = Some s1"
      "load_result e ''oggenc.053'' = 0" "filename = Some name" "\<not> open_ok e name" "r = 2"
      "s' = snd (file_open e name (snd (VSLoadUserCode e ''oggenc.053'' s1)))"
  | (recorded) s1 name s4 s5 where "setup_device e (set_rec_state 0 st0) = Some s1"
      "load_result e ''oggenc.053'' = 0" "filename = Some name" "open_ok e name"
      "start_encoder e (snd (file_open e name (snd (VSLoadUserCode e ''oggenc.053'' s1)))) = Some s4"
      "record_loop e s4 = Some s5" "r = 0" "s' = finish e s5"
  using assms unfolding record_fn_def VSLoadUserCode_def file_open_def
  by (auto split: bind_splits option.splits if_splits)

lemma entry_trace: "trace_ok (set_rec_state 0 st0)"
  by (simp add: trace_ok_iff set_rec_state_def st0_def)

lemma setup_device_trace:
  "setup_device e s = Some s' \<Longrightarrow> trace_ok s' = trace_ok s"
  by (auto dest!: setup_device_Some simp: trace_ok_def)

lemma start_encoder_trace:
  "start_encoder e s = Some s' \<Longrightarrow> trace_ok s' = trace_ok s"
  by (auto dest!: start_encoder_Some simp: trace_ok_def)

lemma finish_trace: "trace_ok (finish e s) = trace_ok s"
  by (simp add: finish_def file_close_def prim_defs trace_ok_def Let_def)

lemma record_fn_trace:
  assumes "record_fn e filename = Some (r, s')"
  shows "trace_ok s'"
  using assms
proof (cases rule: record_fn_elim)
  case (plugin s1)
  with setup_device_trace [OF plugin(1)] entry_trace show ?thesis
    by (simp add: VSLoadUserCode_def trace_ok_def)
next
  case (noname s1)
  with setup_device_trace [OF noname(1)] entry_trace show ?thesis
    by (simp add: VSLoadUserCode_def trace_ok_def)
next
  case (nofile s1 name)
  with setup_device_trace [OF nofile(1)] entry_trace show ?thesis
    by (simp add: VSLoadUserCode_def file_open_def trace_ok_def)
next
  case (recorded s1 name s4 s5)
  from setup_device_trace [OF recorded(1)] entry_trace
  have "trace_ok (snd (file_open e name (snd (VSLoadUserCode e ''oggenc.053'' s1))))"
    by (simp add: VSLoadUserCode_def file_open_def trace_ok_def)
  with start_encoder_trace [OF recorded(5)] have "trace_ok s4" by simp
  moreover from record_loop_passes [OF recorded(6)] obtain n where "s5 = loop_passes e n s4"
    by blast
  ultimately have "trace_ok s5" by (simp add: loop_passes_trace)
  with recorded(8) show ?thesis by (simp add: finish_trace)
qed

section \<open>The drain sub-loop on a full chunk and on the last chunk\<close>

lemma drain_full_chunk:
  assumes "rec_state s < 2" "256 \<le> wordsWaiting" "wordsWaiting < 512"
  shows "drain e wordsWaiting s = transfer_group e 128 (transfer_group e 128 s)"
proof -
  from assms(1) have ne: "rec_state s \<noteq> 2" by auto
  have g: "drain_guard s wordsWaiting" using assms by (simp add: drain_guard_def)
  have body: "drain_body e wordsWaiting s = transfer_group e 128 (transfer_group e 128 s)"
    using ne assms(2) by (simp add: drain_body_full words_to_read_full)
  have "words_left wordsWaiting < 256"
    using assms(2,3) unfolding words_left_def min_def by (simp add: leD) unat_arith
  then have "\<not> drain_guard (drain_body e wordsWaiting s) (words_left wordsWaiting)"
    using assms(1) by (simp add: body drain_guard_def transfer_group_frame not_le)
  then show ?thesis by (simp add: drain_step [OF g] drain_skip body)
qed

lemma drain_last_chunk:
  assumes "rec_state s = 2" "1 \<le> wordsWaiting" "wordsWaiting \<le> 256"
  shows "drain e wordsWaiting s =
           last_word e (transfer_group e (words_to_write s wordsWaiting)
                          (transfer_group e (words_to_write s wordsWaiting) s))"
    and "unat (words_to_write s wordsWaiting) = (unat wordsWaiting - 1) div 2"
proof -
  have g: "drain_guard s wordsWaiting" using assms by (simp add: drain_guard_def)
  from words_to_read_last [OF assms(1,3)]
  have r: "words_to_read s wordsWaiting = wordsWaiting - 1" and z: "words_left wordsWaiting = 0"
    by simp_all
  from assms(2,3) have lt: "wordsWaiting - 1 < 256" and u: "unat (wordsWaiting - 1) = unat wordsWaiting - 1"
    by unat_arith+
  from lt r have "words_to_read s wordsWaiting < 256" by simp
  note body = drain_body_last [OF this, of e]
  have "\<not> drain_guard (drain_body e wordsWaiting s) 0"
    by (simp add: body drain_guard_def last_word_fields)
  then show "drain e wordsWaiting s =
           last_word e (transfer_group e (words_to_write s wordsWaiting)
                          (transfer_group e (words_to_write s wordsWaiting) s))"
    by (simp add: drain_step [OF g] z drain_skip body)
  show "unat (words_to_write s wordsWaiting) = (unat wordsWaiting - 1) div 2"
    using unat_words_to_write(1) [OF assms(2), of s] r u by simp
qed

text \<open>
  The last chunk as the file sees it: with \<open>n\<close> words waiting in state 2, the two
  passes move \<open>2 * ((n - 1) div 2)\<close> words, and the next word is treated as the last.
\<close>

lemma drain_last_chunk_fields:
  fixes e :: env
  assumes "rec_state s = 2" "1 \<le> wordsWaiting" "wordsWaiting \<le> 256" "length (wbuff s) = 256"
  defines "m \<equiv> 2 * ((unat wordsWaiting - 1) div 2)"
  defines "s' \<equiv> drain e wordsWaiting s"
  shows "rec_state s' = 3" "visited s' = visited s @ [3]"
    "reads s' = (reads s)(SCI_HDAT0 := Suc (reads s SCI_HDAT0 + m),
                          SCI_AICTRL3 := Suc (Suc (reads s SCI_AICTRL3)))"
    "sink s' = sink s @ map (hdat0_byte e) [2 * reads s SCI_HDAT0 ..< 2 * (reads s SCI_HDAT0 + m)] @
       hdat0_byte e (2 * (reads s SCI_HDAT0 + m)) #
       (if reg_read e SCI_AICTRL3 (Suc (reads s SCI_AICTRL3)) AND 4 = 0
        then [hdat0_byte e (2 * (reads s SCI_HDAT0 + m) + 1)] else [])"
    "length (wbuff s') = 256" "overrun s' = overrun s" "events s' = events s" "polls s' = polls s"
    "now s' = now s"
proof -
  let ?w = "words_to_write s wordsWaiting"
  let ?t = "transfer_group e ?w (transfer_group e ?w s)"
  note d1 = drain_last_chunk(1) [OF assms(1-3), of e]
  note d2 = drain_last_chunk(2) [OF assms(1-3)]
  from d2 have w: "unat ?w \<le> 128" "2 * unat ?w = m" "4 * unat ?w = 2 * m"
    using assms(3) unfolding m_def by (simp_all, unat_arith)
  note tw = transfer_twice [OF w(1) assms(4), of e]
  have s': "s' = last_word e ?t" unfolding s'_def by (rule d1)
  show "rec_state s' = 3" "visited s' = visited s @ [3]" "events s' = events s"
    "polls s' = polls s" "now s' = now s"
    unfolding s' by (simp_all add: last_word_fields transfer_group_frame)
  show "length (wbuff s') = 256" "overrun s' = overrun s"
    unfolding s' using tw(2,3) by (simp_all add: last_word_fields)
  show "reads s' = (reads s)(SCI_HDAT0 := Suc (reads s SCI_HDAT0 + m),
                          SCI_AICTRL3 := Suc (Suc (reads s SCI_AICTRL3)))"
    unfolding s' using tw(4) w(2) by (simp add: last_word_fields fun_eq_iff)
  show "sink s' = sink s @ map (hdat0_byte e) [2 * reads s SCI_HDAT0 ..< 2 * (reads s SCI_HDAT0 + m)] @
       hdat0_byte e (2 * (reads s SCI_HDAT0 + m)) #
       (if reg_read e SCI_AICTRL3 (Suc (reads s SCI_AICTRL3)) AND 4 = 0
        then [hdat0_byte e (2 * (reads s SCI_HDAT0 + m) + 1)] else [])"
    unfolding s' using tw(1,4) w(2,3) by (simp add: last_word_fields algebra_simps)
qed

lemma drain_full_chunk_fields:
  fixes e :: env
  assumes "rec_state s < 2" "256 \<le> wordsWaiting" "wordsWaiting < 512" "length (wbuff s) = 256"
  defines "s' \<equiv> drain e wordsWaiting s"
  shows "rec_state s' = rec_state s" "visited s' = visited s"
    "reads s' = (reads s)(SCI_HDAT0 := reads s SCI_HDAT0 + 256)"
    "sink s' = sink s @ map (hdat0_byte e) [2 * reads s SCI_HDAT0 ..< 2 * reads s SCI_HDAT0 + 512]"
    "length (wbuff s') = 256" "overrun s' = overrun s" "events s' = events s" "polls s' = polls s"
    "now s' = now s"
proof -
  have s': "s' = transfer_group e 128 (transfer_group e 128 s)"
    unfolding s'_def by (rule drain_full_chunk [OF assms(1-3)])
  have w: "unat (128 :: u8) \<le> 128" by simp
  note tw = transfer_twice [OF w assms(4), of e]
  show "rec_state s' = rec_state s" "visited s' = visited s" "events s' = events s"
    "polls s' = polls s" "now s' = now s"
    unfolding s' by (simp_all add: transfer_group_frame)
  show "length (wbuff s') = 256" "overrun s' = overrun s"
    "reads s' = (reads s)(SCI_HDAT0 := reads s SCI_HDAT0 + 256)"
    "sink s' = sink s @ map (hdat0_byte e) [2 * reads s SCI_HDAT0 ..< 2 * reads s SCI_HDAT0 + 512]"
    unfolding s' using tw by simp_all
qed

section \<open>One pass of the recording loop\<close>

lemma hdat0_bytes_append:
  "a \<le> b \<Longrightarrow> b \<le> c \<Longrightarrow> hdat0_bytes e a b @ hdat0_bytes e b c = hdat0_bytes e a c"
  unfolding hdat0_bytes_def map_append [symmetric]
  by (metis le_add_diff_inverse upt_add_eq_append)

lemma hdat0_bytes_empty: "hdat0_bytes e a a = []"
  by (simp add: hdat0_bytes_def)

lemma pre_drain_quiet:
  assumes "rec_state s \<noteq> 1"
    and "rec_state s \<noteq> 0 \<or> (getKey e (polls s) = 0 \<and> serial_in e (polls s) \<noteq> Some 0x73)"
  shows "read_waiting e (poll_serial e (poll_keypad e s)) =
           (reg_read e SCI_HDAT1 (reads s SCI_HDAT1),
            s\<lparr>reads := (reads s)(SCI_HDAT1 := Suc (reads s SCI_HDAT1))\<rparr>)"
  using assms
  by (auto simp: read_waiting_def poll_serial_def poll_keypad_def prim_defs Let_def
      split: option.splits)

lemma pre_drain_stop_ack:
  assumes "rec_state s = 0"
    and "getKey e (polls s) \<noteq> 0 \<or> serial_in e (polls s) = Some 0x73"
    and "reg_read e SCI_AICTRL3 (reads s SCI_AICTRL3) AND 2 \<noteq> 0"
  shows "read_waiting e (poll_serial e (poll_keypad e s)) =
           (reg_read e SCI_HDAT1 (Suc (reads s SCI_HDAT1)),
            s\<lparr>rec_state := 2, visited := visited s @ [1, 2],
              events := events s @ [RegWrite SCI_AICTRL3 1],
              reads := (reads s)(SCI_HDAT1 := Suc (Suc (reads s SCI_HDAT1)),
                                 SCI_AICTRL3 := Suc (reads s SCI_AICTRL3))\<rparr>)"
  using assms
  by (auto simp: read_waiting_def poll_serial_def poll_keypad_def prim_defs Let_def fun_eq_iff
      split: option.splits)

section \<open>Well-behaved runs\<close>

lemma record_fn_ready:
  assumes "always_ready e" "load_result e ''oggenc.053'' = 0" "open_ok e name"
  shows "record_fn e (Some name) =
           map_option (\<lambda>s. (0, finish e s)) (record_loop e (loop_entry e name))"
proof -
  have "start_encoder e (snd (file_open e name (snd (VSLoadUserCode e ''oggenc.053''
          (the (setup_device e (set_rec_state 0 st0))))))) = Some (loop_entry e name)"
    using assms
    by (simp add: setup_device_ok start_encoder_ok VSLoadUserCode_def file_open_def
        set_rec_state_def st0_def loop_entry_def fun_eq_iff)
  then show ?thesis
    using assms
    by (cases "record_loop e (loop_entry e name)")
      (simp_all add: record_fn_def setup_device_ok VSLoadUserCode_def file_open_def)
qed

lemma loop_entry_fields:
  "rec_state (loop_entry e name) = 0" "visited (loop_entry e name) = [0]"
  "sink (loop_entry e name) = []" "length (wbuff (loop_entry e name)) = 256"
  "\<not> overrun (loop_entry e name)" "polls (loop_entry e name) = 0"
  "reads (loop_entry e name) SCI_HDAT0 = 0" "reads (loop_entry e name) SCI_HDAT1 = 0"
  "reads (loop_entry e name) SCI_AICTRL3 = 0"
  by (simp_all add: loop_entry_def st0_def)

lemma finish_fields:
  "rec_state (finish e s) = rec_state s" "visited (finish e s) = visited s"
  "sink (finish e s) = sink s" "overrun (finish e s) = overrun s"
  "reads (finish e s) SCI_HDAT0 = reads s SCI_HDAT0"
  "events (finish e s) =
     events s @ [FileClose, RegWrite SCI_MODE (reg_read e SCI_MODE (reads s SCI_MODE) OR sm_reset e)]"
  by (simp_all add: finish_def file_close_def prim_defs Let_def)

lemma pass_full:
  fixes e :: env
  assumes "rec_state s = 0" "getKey e (polls s) = 0" "serial_in e (polls s) \<noteq> Some 0x73"
    and "256 \<le> reg_read e SCI_HDAT1 (reads s SCI_HDAT1)"
    and "reg_read e SCI_HDAT1 (reads s SCI_HDAT1) < 512"
    and "length (wbuff s) = 256"
  defines "s' \<equiv> loop_body e s"
  shows "rec_state s' = 0" "visited s' = visited s"
    "sink s' = sink s @ hdat0_bytes e (2 * reads s SCI_HDAT0) (2 * reads s SCI_HDAT0 + 512)"
    "reads s' = (reads s)(SCI_HDAT1 := Suc (reads s SCI_HDAT1), SCI_HDAT0 := reads s SCI_HDAT0 + 256)"
    "length (wbuff s') = 256" "overrun s' = overrun s" "polls s' = Suc (polls s)"
    "events s' = events s"
proof -
  let ?s2 = "s\<lparr>reads := (reads s)(SCI_HDAT1 := Suc (reads s SCI_HDAT1))\<rparr>"
  let ?ww = "reg_read e SCI_HDAT1 (reads s SCI_HDAT1)"
  have pre: "read_waiting e (poll_serial e (poll_keypad e s)) = (?ww, ?s2)"
    using assms(1-3) by (intro pre_drain_quiet) simp_all
  have s': "s' = (drain e ?ww ?s2)\<lparr>polls := Suc (polls (drain e ?ww ?s2))\<rparr>"
    unfolding s'_def by (simp add: loop_body_def Let_def pre)
  have st: "rec_state ?s2 < 2" and len: "length (wbuff ?s2) = 256"
    using assms(1,6) by simp_all
  note d = drain_full_chunk_fields [OF st assms(4,5) len, of e]
  show "rec_state s' = 0" "visited s' = visited s" "length (wbuff s') = 256"
    "overrun s' = overrun s" "polls s' = Suc (polls s)" "events s' = events s"
    unfolding s' using d assms(1) by simp_all
  show "sink s' = sink s @ hdat0_bytes e (2 * reads s SCI_HDAT0) (2 * reads s SCI_HDAT0 + 512)"
    unfolding s' using d(4) by (simp add: hdat0_bytes_def)
  show "reads s' = (reads s)(SCI_HDAT1 := Suc (reads s SCI_HDAT1), SCI_HDAT0 := reads s SCI_HDAT0 + 256)"
    unfolding s' using d(3) by (simp add: fun_eq_iff)
qed

lemma pass_stop_last:
  fixes e :: env
  assumes "rec_state s = 0"
    and "getKey e (polls s) \<noteq> 0 \<or> serial_in e (polls s) = Some 0x73"
    and "reg_read e SCI_AICTRL3 (reads s SCI_AICTRL3) AND 2 \<noteq> 0"
    and "1 \<le> reg_read e SCI_HDAT1 (Suc (reads s SCI_HDAT1))"
    and "reg_read e SCI_HDAT1 (Suc (reads s SCI_HDAT1)) \<le> 256"
    and "length (wbuff s) = 256"
  defines "m \<equiv> 2 * ((unat (reg_read e SCI_HDAT1 (Suc (reads s SCI_HDAT1))) - 1) div 2)"
  defines "s' \<equiv> loop_body e s"
  shows "rec_state s' = 3" "visited s' = visited s @ [1, 2, 3]"
    "sink s' = sink s @ hdat0_bytes e (2 * reads s SCI_HDAT0) (2 * (reads s SCI_HDAT0 + m)) @
       hdat0_byte e (2 * (reads s SCI_HDAT0 + m)) #
       (if reg_read e SCI_AICTRL3 (Suc (Suc (reads s SCI_AICTRL3))) AND 4 = 0
        then [hdat0_byte e (2 * (reads s SCI_HDAT0 + m) + 1)] else [])"
    "reads s' SCI_HDAT0 = Suc (reads s SCI_HDAT0 + m)"
    "overrun s' = overrun s"
proof -
  let ?s2 = "s\<lparr>rec_state := 2, visited := visited s @ [1, 2],
              events := events s @ [RegWrite SCI_AICTRL3 1],
              reads := (reads s)(SCI_HDAT1 := Suc (Suc (reads s SCI_HDAT1)),
                                 SCI_AICTRL3 := Suc (reads s SCI_AICTRL3))\<rparr>"
  let ?ww = "reg_read e SCI_HDAT1 (Suc (reads s SCI_HDAT1))"
  have pre: "read_waiting e (poll_serial e (poll_keypad e s)) = (?ww, ?s2)"
    by (rule pre_drain_stop_ack [OF assms(1-3)])
  have s': "s' = (drain e ?ww ?s2)\<lparr>polls := Suc (polls (drain e ?ww ?s2))\<rparr>"
    unfolding s'_def by (simp add: loop_body_def Let_def pre)
  have st: "rec_state ?s2 = 2" and len: "length (wbuff ?s2) = 256"
    using assms(6) by simp_all
  note d = drain_last_chunk_fields [OF st assms(4,5) len, of e]
  show "rec_state s' = 3" "visited s' = visited s @ [1, 2, 3]" "overrun s' = overrun s"
    unfolding s' using d by simp_all
  show "reads s' SCI_HDAT0 = Suc (reads s SCI_HDAT0 + m)"
    unfolding s' m_def using d(3) by simp
  show "sink s' = sink s @ hdat0_bytes e (2 * reads s SCI_HDAT0) (2 * (reads s SCI_HDAT0 + m)) @
       hdat0_byte e (2 * (reads s SCI_HDAT0 + m)) #
       (if reg_read e SCI_AICTRL3 (Suc (Suc (reads s SCI_AICTRL3))) AND 4 = 0
        then [hdat0_byte e (2 * (reads s SCI_HDAT0 + m) + 1)] else [])"
    unfolding s' m_def using d(4) by (simp add: hdat0_bytes_def)
qed

section \<open>Stopping a recording\<close>

lemma drain_nothing: "drain e 0 s = s"
  by (rule drain_skip) (simp add: drain_guard_def)

text \<open>
  From the moment the codec reports no waiting word any more, a pass of the loop drains
  nothing.
\<close>

lemma pre_drain_reads: "reads (poll_serial e (poll_keypad e s)) SCI_HDAT1 = reads s SCI_HDAT1"
  by (simp add: poll_serial_def poll_keypad_def prim_defs split: option.splits)

lemma read_waiting_no_words:
  assumes "\<forall>n\<ge>reads s SCI_HDAT1. reg_read e SCI_HDAT1 n = 0"
  shows "fst (read_waiting e s) = 0"
    and "reads s SCI_HDAT1 \<le> reads (snd (read_waiting e s)) SCI_HDAT1"
  using assms by (simp_all add: read_waiting_def prim_defs Let_def split: prod.splits)

lemma pass_no_words:
  assumes "\<forall>n\<ge>reads s SCI_HDAT1. reg_read e SCI_HDAT1 n = 0"
  shows "loop_body e s =
    (snd (read_waiting e (poll_serial e (poll_keypad e s))))
      \<lparr>polls := Suc (polls (snd (read_waiting e (poll_serial e (poll_keypad e s)))))\<rparr>"
proof -
  from assms have "\<forall>n\<ge>reads (poll_serial e (poll_keypad e s)) SCI_HDAT1. reg_read e SCI_HDAT1 n = 0"
    by (simp add: pre_drain_reads)
  then have z: "fst (read_waiting e (poll_serial e (poll_keypad e s))) = 0"
    by (rule read_waiting_no_words)
  obtain ww s2 where rw: "read_waiting e (poll_serial e (poll_keypad e s)) = (ww, s2)"
    by (cases "read_waiting e (poll_serial e (poll_keypad e s))")
  with z have "ww = 0" by simp
  with rw show ?thesis
    by (simp add: loop_body_def Let_def drain_nothing)
qed

lemma pass_no_words_fields:
  assumes "\<forall>n\<ge>reads s SCI_HDAT1. reg_read e SCI_HDAT1 n = 0"
  shows "rec_state s < 3 \<Longrightarrow> rec_state (loop_body e s) < 3"
    and "sink (loop_body e s) = sink s"
    and "rec_state s = 2 \<Longrightarrow> rec_state (loop_body e s) = 2 \<and> visited (loop_body e s) = visited s"
    and "reads s SCI_HDAT1 \<le> reads (loop_body e s) SCI_HDAT1"
proof -
  note lb = pass_no_words [OF assms]
  show "rec_state s < 3 \<Longrightarrow> rec_state (loop_body e s) < 3"
    unfolding lb by (simp add: read_waiting_state poll_serial_state poll_keypad_state)
  show "sink (loop_body e s) = sink s"
    unfolding lb
    by (simp add: read_waiting_def poll_serial_def poll_keypad_def prim_defs Let_def
        split: prod.splits option.splits)
  show "rec_state s = 2 \<Longrightarrow> rec_state (loop_body e s) = 2 \<and> visited (loop_body e s) = visited s"
    unfolding lb by (simp add: pre_drain_quiet)
  from assms have "\<forall>n\<ge>reads (poll_serial e (poll_keypad e s)) SCI_HDAT1. reg_read e SCI_HDAT1 n = 0"
    by (simp add: pre_drain_reads)
  from read_waiting_no_words(2) [OF this] show "reads s SCI_HDAT1 \<le> reads (loop_body e s) SCI_HDAT1"
    unfolding lb by (simp add: pre_drain_reads)
qed

lemma passes_no_words:
  assumes "\<forall>n\<ge>reads s SCI_HDAT1. reg_read e SCI_HDAT1 n = 0" "rec_state s < 3"
  shows "rec_state (loop_passes e n s) < 3 \<and> sink (loop_passes e n s) = sink s \<and>
         reads s SCI_HDAT1 \<le> reads (loop_passes e n s) SCI_HDAT1"
proof (induction n)
  case 0
  with assms(2) show ?case by (simp add: loop_passes_def)
next
  case (Suc n)
  let ?t = "loop_passes e n s"
  have step: "loop_passes e (Suc n) s = loop_pass e ?t"
    by (simp add: loop_passes_def)
  from Suc assms(1) have "\<forall>m\<ge>reads ?t SCI_HDAT1. reg_read e SCI_HDAT1 m = 0" by simp
  from pass_no_words_fields(1,2,4) [OF this] Suc show ?case
    unfolding step by (auto simp: loop_pass_def)
qed

lemma passes_stuck_in_2:
  assumes "\<forall>n\<ge>reads s SCI_HDAT1. reg_read e SCI_HDAT1 n = 0" "rec_state s = 2"
  shows "rec_state (loop_passes e n s) = 2 \<and> visited (loop_passes e n s) = visited s"
proof (induction n)
  case 0
  with assms(2) show ?case by (simp add: loop_passes_def)
next
  case (Suc n)
  let ?t = "loop_passes e n s"
  have step: "loop_passes e (Suc n) s = loop_pass e ?t"
    by (simp add: loop_passes_def)
  from assms have "rec_state s < 3" by simp
  from passes_no_words [OF assms(1) this, of n] assms(1)
  have "\<forall>m\<ge>reads ?t SCI_HDAT1. reg_read e SCI_HDAT1 m = 0" by simp
  from pass_no_words_fields(3) [OF this] Suc show ?case
    unfolding step by (simp add: loop_pass_def)
qed

text \<open>
  A pass in which the stop is requested and acknowledged while the repeated reading of
  \<^verbatim>\<open>SCI_HDAT1\<close> returns 0: the state becomes 2 and nothing is drained, whatever the
  first reading was.
\<close>

lemma pass_stop_stall:
  assumes "rec_state s = 0"
    and "getKey e (polls s) \<noteq> 0 \<or> serial_in e (polls s) = Some 0x73"
    and "reg_read e SCI_AICTRL3 (reads s SCI_AICTRL3) AND 2 \<noteq> 0"
    and "reg_read e SCI_HDAT1 (Suc (reads s SCI_HDAT1)) = 0"
  shows "rec_state (loop_body e s) = 2" "visited (loop_body e s) = visited s @ [1, 2]"
    "sink (loop_body e s) = sink s"
    "reads (loop_body e s) SCI_HDAT1 = Suc (Suc (reads s SCI_HDAT1))"
  using assms(4)
  by (simp_all add: loop_body_def Let_def pre_drain_stop_ack [OF assms(1-3)] drain_nothing)

lemma record_loop_never_from:
  assumes "\<forall>n\<ge>reads s SCI_HDAT1. reg_read e SCI_HDAT1 n = 0" "rec_state s < 3"
  shows "record_loop e s = None"
proof (rule record_loop_never)
  from passes_no_words [OF assms] show "\<forall>n. rec_state (loop_passes e n s) < 3" by simp
qed

text \<open>With no word ever reported, a run that is asked to stop is left in state 2 for ever.\<close>

lemma stop_without_words:
  assumes "always_ready e" "load_result e ''oggenc.053'' = 0" "open_ok e name"
    and "\<forall>n. reg_read e SCI_HDAT1 n = 0"
  shows "record_fn e (Some name) = None"
    and "sink (loop_passes e n (loop_entry e name)) = []"
    and "getKey e 0 \<noteq> 0 \<or> serial_in e 0 = Some 0x73 \<Longrightarrow> reg_read e SCI_AICTRL3 0 AND 2 \<noteq> 0 \<Longrightarrow>
         visited (loop_passes e (Suc n) (loop_entry e name)) = [0, 1, 2]"
proof -
  have lt: "rec_state (loop_entry e name) < 3" by (simp add: loop_entry_fields)
  have z: "\<forall>n\<ge>reads t SCI_HDAT1. reg_read e SCI_HDAT1 n = 0" for t
    using assms(4) by simp
  have "record_loop e (loop_entry e name) = None"
    by (rule record_loop_never_from [OF z lt])
  then show "record_fn e (Some name) = None"
    by (simp add: record_fn_ready [OF assms(1-3)])
  show "sink (loop_passes e n (loop_entry e name)) = []"
    using passes_no_words [OF z lt, of n] by (simp add: loop_entry_fields)
  assume stop: "getKey e 0 \<noteq> 0 \<or> serial_in e 0 = Some 0x73"
    and ack: "reg_read e SCI_AICTRL3 0 AND 2 \<noteq> 0"
  let ?s1 = "loop_body e (loop_entry e name)"
  have "rec_state ?s1 = 2" "visited ?s1 = [0, 1, 2]"
    using pass_stop_stall(1,2) [of "loop_entry e name" e] stop ack assms(4)
    by (simp_all add: loop_entry_fields)
  with passes_stuck_in_2 [OF z, of ?s1 n]
  show "visited (loop_passes e (Suc n) (loop_entry e name)) = [0, 1, 2]"
    by (simp add: loop_passes_Suc loop_pass_def loop_entry_fields)
qed

text \<open>With one word reported after the acknowledgement, the run ends with that word.\<close>

lemma stop_with_one_word:
  assumes "always_ready e" "load_result e ''oggenc.053'' = 0" "open_ok e name"
    and "getKey e 0 \<noteq> 0 \<or> serial_in e 0 = Some 0x73"
    and "reg_read e SCI_AICTRL3 0 AND 2 \<noteq> 0"
    and "reg_read e SCI_HDAT1 1 = 1"
  shows "\<exists>s. record_fn e (Some name) = Some (0, s) \<and> visited s = [0, 1, 2, 3] \<and>
           sink s = hdat0_byte e 0 #
             (if reg_read e SCI_AICTRL3 2 AND 4 = 0 then [hdat0_byte e 1] else [])"
proof -
  let ?s0 = "loop_entry e name"
  let ?s1 = "loop_body e ?s0"
  have one: "1 \<le> reg_read e SCI_HDAT1 (Suc (reads ?s0 SCI_HDAT1))"
    "reg_read e SCI_HDAT1 (Suc (reads ?s0 SCI_HDAT1)) \<le> 256"
    using assms(6) by (simp_all add: loop_entry_fields)
  have stop: "getKey e (polls ?s0) \<noteq> 0 \<or> serial_in e (polls ?s0) = Some 0x73"
    and ack: "reg_read e SCI_AICTRL3 (reads ?s0 SCI_AICTRL3) AND 2 \<noteq> 0"
    using assms(4,5) by (simp_all add: loop_entry_fields)
  note p = pass_stop_last [OF loop_entry_fields(1) stop ack one loop_entry_fields(4)]
  have f: "rec_state ?s1 = 3" "visited ?s1 = [0, 1, 2, 3]"
    "sink ?s1 = hdat0_byte e 0 #
             (if reg_read e SCI_AICTRL3 2 AND 4 = 0 then [hdat0_byte e 1] else [])"
    using p(1,2,3) assms(6)
    by (simp_all add: loop_entry_fields hdat0_bytes_empty numeral_2_eq_2)
  have "loop_passes e 1 ?s0 = ?s1"
    by (simp add: loop_passes_def loop_pass_def loop_entry_fields)
  with f(1) have "record_loop e ?s0 = Some ?s1"
    using record_loop_done [of e 1 ?s0] by simp
  then have "record_fn e (Some name) = Some (0, finish e ?s1)"
    by (simp add: record_fn_ready [OF assms(1-3)])
  with f(2,3) show ?thesis by (simp add: finish_fields)
qed

section \<open>The codecs of the scenarios are ready\<close>

lemma env_idle_ready: "always_ready env_idle"
  by (simp add: always_ready_def env_idle_def)

lemma scenario_ready:
  "always_ready env_stop_empty" "always_ready env_stop_one" "always_ready env_scenario_c"
  by (simp_all add: always_ready_def env_stop_empty_def env_stop_one_def env_scenario_c_def
      env_idle_def)

section \<open>Joining pieces of the stream\<close>

lemma loop_passes_0: "loop_passes e 0 s = s"
  by (simp add: loop_passes_def)

lemma hdat0_bytes_chain:
  assumes "a \<le> b" "b \<le> c"
  shows "hdat0_bytes e a b @ hdat0_bytes e b c @ [hdat0_byte e c, hdat0_byte e (Suc c)] =
           hdat0_bytes e a (Suc (Suc c))"
proof -
  from assms have "hdat0_bytes e a (Suc (Suc c)) =
      hdat0_bytes e a c @ [hdat0_byte e c, hdat0_byte e (Suc c)]"
    by (simp add: hdat0_bytes_def)
  with hdat0_bytes_append [OF assms, of e] show ?thesis by simp
qed

section \<open>Bit 2 of the status word\<close>

lemma bit2_clear: "(status AND 4 = 0) \<longleftrightarrow> \<not> bit (status :: u16) 2"
  using and_exp_eq_0_iff_not_bit [of status 2] by simp

section \<open>Draining to the end\<close>

text \<open>In state 2 the sub-loop empties the codec and ends in state 3.\<close>

lemma drain_to_empty:
  "rec_state s = 2 \<Longrightarrow> 1 \<le> wordsWaiting \<Longrightarrow>
     rec_state (drain e wordsWaiting s) = 3 \<and>
     reads s SCI_HDAT0 < reads (drain e wordsWaiting s) SCI_HDAT0"
proof (induction e wordsWaiting s rule: drain.induct)
  case (1 e wordsWaiting s)
  from "1.prems" have g: "drain_guard s wordsWaiting" by (simp add: drain_guard_def)
  show ?case
  proof (cases "wordsWaiting \<le> 256")
    case True
    note d = drain_last_chunk(1) [OF "1.prems" True, of e]
    show ?thesis
      unfolding d by (simp add: last_word_fields transfer_group_frame)
  next
    case False
    then have more: "256 < wordsWaiting" by simp
    then have body: "drain_body e wordsWaiting s = transfer_group e 128 (transfer_group e 128 s)"
      by (simp add: drain_body_full words_to_read_more)
    have st: "rec_state (drain_body e wordsWaiting s) = 2"
      and rd: "reads (drain_body e wordsWaiting s) SCI_HDAT0 = reads s SCI_HDAT0 + 256"
      using "1.prems"(1) by (simp_all add: body transfer_group_frame)
    from more have left: "1 \<le> words_left wordsWaiting"
      unfolding words_left_def min_def by (simp add: leD) unat_arith
    from "1.IH" [OF g st left] rd show ?thesis
      by (simp add: drain_step [OF g])
  qed
qed

section \<open>No access outside the buffer\<close>

lemma pre_drain_buffer:
  "wbuff (snd (read_waiting e (poll_serial e (poll_keypad e s)))) = wbuff s"
  "overrun (snd (read_waiting e (poll_serial e (poll_keypad e s)))) = overrun s"
  by (simp_all add: read_waiting_def poll_serial_def poll_keypad_def prim_defs Let_def
      split: prod.splits option.splits)

lemma loop_body_safe:
  assumes "length (wbuff s) = 256"
  shows "length (wbuff (loop_body e s)) = 256 \<and> overrun (loop_body e s) = overrun s"
proof -
  obtain ww s2 where rw: "read_waiting e (poll_serial e (poll_keypad e s)) = (ww, s2)"
    by (cases "read_waiting e (poll_serial e (poll_keypad e s))")
  with pre_drain_buffer [of e s] assms have "length (wbuff s2) = 256" "overrun s2 = overrun s"
    by simp_all
  with drain_safe [of s2 e ww] rw show ?thesis
    by (simp add: loop_body_def Let_def)
qed

lemma loop_passes_safe:
  assumes "length (wbuff s) = 256"
  shows "length (wbuff (loop_passes e n s)) = 256 \<and> overrun (loop_passes e n s) = overrun s"
proof (induction n)
  case 0
  with assms show ?case by (simp add: loop_passes_def)
next
  case (Suc n)
  have "loop_passes e (Suc n) s = loop_pass e (loop_passes e n s)"
    by (simp add: loop_passes_def)
  with Suc loop_body_safe [of "loop_passes e n s" e] show ?case
    by (simp add: loop_pass_def)
qed

lemma record_fn_safe:
  assumes "record_fn e filename = Some (r, s')"
  shows "\<not> overrun s'"
  using assms
proof (cases rule: record_fn_elim)
  case (plugin s1)
  with setup_device_Some [OF plugin(1)] show ?thesis
    by (auto simp: VSLoadUserCode_def set_rec_state_def st0_def)
next
  case (noname s1)
  with setup_device_Some [OF noname(1)] show ?thesis
    by (auto simp: VSLoadUserCode_def set_rec_state_def st0_def)
next
  case (nofile s1 name)
  with setup_device_Some [OF nofile(1)] show ?thesis
    by (auto simp: VSLoadUserCode_def file_open_def set_rec_state_def st0_def)
next
  case (recorded s1 name s4 s5)
  from setup_device_Some [OF recorded(1)] start_encoder_Some [OF recorded(5)]
  have "length (wbuff s4) = 256" "\<not> overrun s4"
    by (auto simp: VSLoadUserCode_def file_open_def set_rec_state_def st0_def)
  moreover from record_loop_passes [OF recorded(6)] obtain n where "s5 = loop_passes e n s4"
    by blast
  ultimately have "\<not> overrun s5" by (simp add: loop_passes_safe)
  with recorded(8) show ?thesis by (simp add: finish_fields)
qed

lemma stop_one_returns:
  "\<exists>s. record_fn env_stop_one (Some ''REC001.OGG'') = Some (0, s) \<and>
       visited s = [0, 1, 2, 3] \<and> sink s = [0xAB, 0xCD]"
proof -
  have "load_result env_stop_one ''oggenc.053'' = 0" "open_ok env_stop_one ''REC001.OGG''"
    "getKey env_stop_one 0 \<noteq> 0 \<or> serial_in env_stop_one 0 = Some 0x73"
    "reg_read env_stop_one SCI_AICTRL3 0 AND 2 \<noteq> 0" "reg_read env_stop_one SCI_HDAT1 1 = 1"
    and b: "hdat0_byte env_stop_one 0 = 0xAB" "hdat0_byte env_stop_one 1 = 0xCD"
      "reg_read env_stop_one SCI_AICTRL3 2 AND 4 = 0"
    by (simp_all add: env_stop_one_def env_idle_def hdat0_byte_def)
  from stop_with_one_word [OF scenario_ready(2) this(1-5)] b show ?thesis by simp
qed

section \<open>The log of calls\<close>

lemma loop_body_events: "prefix (events s) (events (loop_body e s))"
proof -
  obtain ww s2 where rw: "read_waiting e (poll_serial e (poll_keypad e s)) = (ww, s2)"
    by (cases "read_waiting e (poll_serial e (poll_keypad e s))")
  have "prefix (events s) (events (snd (read_waiting e (poll_serial e (poll_keypad e s)))))"
    by (simp add: read_waiting_def poll_serial_def poll_keypad_def prim_defs Let_def
        split: prod.splits option.splits)
  with rw have "prefix (events s) (events s2)" by simp
  with rw drain_frame [of e ww s2] show ?thesis
    by (simp add: loop_body_def Let_def)
qed

lemma loop_passes_events: "prefix (events s) (events (loop_passes e n s))"
proof (induction n)
  case 0
  show ?case by (simp add: loop_passes_def)
next
  case (Suc n)
  have "loop_passes e (Suc n) s = loop_pass e (loop_passes e n s)"
    by (simp add: loop_passes_def)
  moreover have "prefix (events t) (events (loop_pass e t))" for t
    by (simp add: loop_pass_def loop_body_events)
  ultimately show ?case
    using Suc prefix_order.order_trans by metis
qed

lemma setup_from_start:
  assumes "setup_device e (set_rec_state 0 st0) = Some s1"
  shows "\<exists>k. s1 = (set_rec_state 0 st0)\<lparr>events := setup_writes e 0,
                 reads := (\<lambda>_. 0)(SCI_MODE := 1), now := k\<rparr>"
proof -
  from setup_device_Some [OF assms] obtain k where
    "s1 = (set_rec_state 0 st0)\<lparr>events := events (set_rec_state 0 st0) @
        setup_writes e (reads (set_rec_state 0 st0) SCI_MODE),
      reads := (reads (set_rec_state 0 st0))(SCI_MODE := Suc (reads (set_rec_state 0 st0) SCI_MODE)),
      now := k\<rparr>"
    by blast
  moreover have "events (set_rec_state 0 st0) = []" "reads (set_rec_state 0 st0) = (\<lambda>_. 0)"
    by (simp_all add: set_rec_state_def st0_def)
  ultimately have "s1 = (set_rec_state 0 st0)\<lparr>events := setup_writes e 0,
                 reads := (\<lambda>_. 0)(SCI_MODE := 1), now := k\<rparr>"
    by simp
  then show ?thesis by blast
qed

lemma record_fn_events:
  assumes "record_fn e filename = Some (r, s')"
  shows "prefix (setup_writes e 0 @ [LoadPlugin ''oggenc.053'' (load_result e ''oggenc.053'')])
           (events s')"
  using assms
proof (cases rule: record_fn_elim)
  case (plugin s1)
  from setup_from_start [OF plugin(1)] have "events s1 = setup_writes e 0" by auto
  with plugin(4) show ?thesis by (simp add: VSLoadUserCode_def)
next
  case (noname s1)
  from setup_from_start [OF noname(1)] have "events s1 = setup_writes e 0" by auto
  with noname(5) show ?thesis by (simp add: VSLoadUserCode_def)
next
  case (nofile s1 name)
  from setup_from_start [OF nofile(1)] have "events s1 = setup_writes e 0" by auto
  with nofile(6) show ?thesis by (simp add: VSLoadUserCode_def file_open_def)
next
  case (recorded s1 name s4 s5)
  let ?p = "setup_writes e 0 @ [LoadPlugin ''oggenc.053'' (load_result e ''oggenc.053'')]"
  from setup_from_start [OF recorded(1)] have "events s1 = setup_writes e 0" by auto
  moreover from start_encoder_Some [OF recorded(5)]
  have "events s4 = events (snd (file_open e name (snd (VSLoadUserCode e ''oggenc.053'' s1)))) @
      encoder_writes e"
    by auto
  ultimately have "prefix ?p (events s4)"
    by (simp add: VSLoadUserCode_def file_open_def)
  moreover from record_loop_passes [OF recorded(6)] obtain n where "s5 = loop_passes e n s4"
    by blast
  then have "prefix (events s4) (events s5)" by (simp add: loop_passes_events)
  moreover have "prefix (events s5) (events s')"
    unfolding recorded(8) by (simp add: finish_fields)
  ultimately show ?thesis
    by (meson prefix_order.order_trans)
qed

lemma failure_envs_ready: "always_ready env_no_plugin" "always_ready env_no_card"
  by (simp_all add: always_ready_def env_no_plugin_def env_no_card_def env_idle_def)

section \<open>Scenario C, counts read in sequence\<close>

lemma record_loop_unfold:
  "rec_state s < 3 \<Longrightarrow> record_loop e s = record_loop e (loop_body e s)"
  by (subst record_loop.simps) simp

lemma scenario_c_seq_run:
  "rec_state (loop_passes env_scenario_c_seq 3 (loop_entry env_scenario_c_seq ''REC001.OGG'')) = 2"
  "sink (loop_passes env_scenario_c_seq 3 (loop_entry env_scenario_c_seq ''REC001.OGG'')) =
     hdat0_bytes env_scenario_c_seq 0 1024"
  "record_fn env_scenario_c_seq (Some ''REC001.OGG'') = None"
proof -
  let ?e = env_scenario_c_seq
  let ?s0 = "loop_entry ?e ''REC001.OGG''"
  let ?s1 = "loop_body ?e ?s0"
  let ?s2 = "loop_body ?e ?s1"
  let ?s3 = "loop_body ?e ?s2"
  have ready: "always_ready ?e"
    by (simp add: always_ready_def env_scenario_c_seq_def env_idle_def)
  have env: "load_result ?e ''oggenc.053'' = 0" "open_ok ?e ''REC001.OGG''"
    "getKey ?e 0 = 0" "getKey ?e (Suc 0) = 0" "getKey ?e (Suc (Suc 0)) \<noteq> 0"
    "serial_in ?e n = None"
    "reg_read ?e SCI_HDAT1 0 = 300" "reg_read ?e SCI_HDAT1 (Suc 0) = 300"
    "reg_read ?e SCI_HDAT1 (Suc (Suc (Suc 0))) = 0"
    "reg_read ?e SCI_AICTRL3 n = 2" for n
    by (simp_all add: env_scenario_c_seq_def env_idle_def)
  have later: "\<forall>n\<ge>Suc (Suc (Suc (Suc 0))). reg_read ?e SCI_HDAT1 n = 0"
    by (auto simp: env_scenario_c_seq_def env_idle_def)
  note p1 = pass_full [of ?s0 ?e]
  have f1: "rec_state ?s1 = 0" "visited ?s1 = [0]" "sink ?s1 = hdat0_bytes ?e 0 512"
    "reads ?s1 SCI_HDAT0 = 256" "reads ?s1 SCI_HDAT1 = Suc 0" "reads ?s1 SCI_AICTRL3 = 0"
    "length (wbuff ?s1) = 256" "polls ?s1 = Suc 0"
    using p1 by (simp_all add: loop_entry_fields env)
  note p2 = pass_full [of ?s1 ?e]
  have f2: "rec_state ?s2 = 0" "visited ?s2 = [0]"
    "sink ?s2 = hdat0_bytes ?e 0 512 @ hdat0_bytes ?e 512 1024"
    "reads ?s2 SCI_HDAT0 = 512" "reads ?s2 SCI_HDAT1 = Suc (Suc 0)" "reads ?s2 SCI_AICTRL3 = 0"
    "length (wbuff ?s2) = 256" "polls ?s2 = Suc (Suc 0)"
    using p2 by (simp_all add: f1 env)
  have sink2: "sink ?s2 = hdat0_bytes ?e 0 1024"
    unfolding f2(3) by (rule hdat0_bytes_append) simp_all
  note p3 = pass_stop_stall [of ?s2 ?e]
  have f3: "rec_state ?s3 = 2" "sink ?s3 = hdat0_bytes ?e 0 1024"
    "reads ?s3 SCI_HDAT1 = Suc (Suc (Suc (Suc 0)))"
    using p3 by (simp_all add: f2(1,2,4-) sink2 env)
  have lt: "rec_state ?s0 < 3" "rec_state ?s1 < 3" "rec_state ?s2 < 3" "rec_state ?s3 < 3"
    by (simp_all add: loop_entry_fields f1 f2 f3)
  have three: "loop_passes ?e 3 ?s0 = ?s3"
    unfolding numeral_3_eq_3 by (simp add: loop_passes_Suc loop_passes_0 loop_pass_def lt)
  show "rec_state (loop_passes ?e 3 ?s0) = 2" "sink (loop_passes ?e 3 ?s0) = hdat0_bytes ?e 0 1024"
    unfolding three by (simp_all add: f3)
  from later have "\<forall>n\<ge>reads ?s3 SCI_HDAT1. reg_read ?e SCI_HDAT1 n = 0"
    unfolding f3(3) .
  then have "record_loop ?e ?s3 = None"
    using lt(4) by (rule record_loop_never_from)
  then have "record_loop ?e ?s0 = None"
    by (simp add: record_loop_unfold lt)
  then show "record_fn ?e (Some ''REC001.OGG'') = None"
    by (simp add: record_fn_ready [OF ready env(1,2)])
qed

section \<open>A recording that ends on an even count\<close>

lemma hdat0_byte_even: "hdat0_byte e (2 * k) = ucast (drop_bit 8 (reg_read e SCI_HDAT0 k))"
  by (simp add: hdat0_byte_def)

lemma hdat0_byte_odd: "hdat0_byte e (2 * k + 1) = ucast (reg_read e SCI_HDAT0 k AND 0xFF)"
  by (simp add: hdat0_byte_def)

lemma last_chunk_words:
  "odd n \<Longrightarrow> 2 * ((n - 1) div 2) = n - (1 :: nat)"
  "even n \<Longrightarrow> 1 \<le> n \<Longrightarrow> 2 * ((n - 1) div 2) = n - (2 :: nat)"
  by presburger+

lemma two_words_run:
  "record_fn env_two_words (Some ''REC001.OGG'') =
     Some (0, finish env_two_words (loop_body env_two_words (loop_entry env_two_words ''REC001.OGG'')))"
  "visited (loop_body env_two_words (loop_entry env_two_words ''REC001.OGG'')) = [0, 1, 2, 3]"
  "sink (loop_body env_two_words (loop_entry env_two_words ''REC001.OGG'')) = [0x11]"
  "reads (loop_body env_two_words (loop_entry env_two_words ''REC001.OGG'')) SCI_HDAT0 = 1"
proof -
  let ?e = env_two_words
  let ?s0 = "loop_entry ?e ''REC001.OGG''"
  let ?s1 = "loop_body ?e ?s0"
  have ready: "always_ready ?e"
    by (simp add: always_ready_def env_two_words_def env_idle_def)
  have env: "load_result ?e ''oggenc.053'' = 0" "open_ok ?e ''REC001.OGG''"
    "getKey ?e 0 \<noteq> 0" "reg_read ?e SCI_AICTRL3 n = 6"
    "reg_read ?e SCI_HDAT1 (Suc 0) = 2" "hdat0_byte ?e 0 = 0x11" for n
    by (simp_all add: env_two_words_def env_idle_def hdat0_byte_def)
  have m: "2 * ((unat (2 :: u16) - 1) div 2) = 0" by simp
  note p = pass_stop_last [of ?s0 ?e]
  show f: "visited ?s1 = [0, 1, 2, 3]" "sink ?s1 = [0x11]" "reads ?s1 SCI_HDAT0 = 1"
    using p(2,3,4) by (simp_all add: loop_entry_fields env m hdat0_bytes_empty)
  have st: "rec_state ?s1 = 3"
    using p(1) by (simp add: loop_entry_fields env)
  have "loop_passes ?e 1 ?s0 = ?s1"
    by (simp add: loop_passes_def loop_pass_def loop_entry_fields)
  with st have "record_loop ?e ?s0 = Some ?s1"
    using record_loop_done [of ?e 1 ?s0] by simp
  then show "record_fn ?e (Some ''REC001.OGG'') = Some (0, finish ?e ?s1)"
    by (simp add: record_fn_ready [OF ready env(1,2)])
qed

section \<open>The last word of a recording\<close>

text \<open>
  C1. The last chunk on the code. In state 2 with \<open>n\<close> words waiting (1 to 256), the
  sub-loop moves \<open>2 * ((n - 1) div 2)\<close> words in its two transfer passes, reads one more
  word, writes its high byte, and writes its low byte exactly when bit 2 of the second
  of the two following readings of \<^verbatim>\<open>SCI_AICTRL3\<close> is clear; nothing else is read or
  written, and the state is 3. When \<open>n\<close> is odd that word is the last of the \<open>n\<close>
  words. When \<open>n\<close> is even it is the last but one: the final word of the recording is
  never read and no byte of it reaches the file. Run on a recording that ends with the two
  words \<open>0x1122\<close> and \<open>0x3344\<close> and bit 2 set, \<^verbatim>\<open>record\<close> returns 0 with the single
  byte \<open>0x11\<close> in the file after one reading of \<^verbatim>\<open>SCI_HDAT0\<close>.
\<close>

theorem last_word_of_last_chunk:
  "(rec_state s = 2 \<and> 1 \<le> wordsWaiting \<and> wordsWaiting \<le> 256 \<and> length (wbuff s) = 256 \<longrightarrow>
      sink (drain e wordsWaiting s) =
        sink s @
        hdat0_bytes e (2 * reads s SCI_HDAT0)
          (2 * (reads s SCI_HDAT0 + 2 * ((unat wordsWaiting - 1) div 2))) @
        ucast (drop_bit 8
          (reg_read e SCI_HDAT0 (reads s SCI_HDAT0 + 2 * ((unat wordsWaiting - 1) div 2)))) #
        (if bit (reg_read e SCI_AICTRL3 (Suc (reads s SCI_AICTRL3))) 2 then []
         else [ucast (reg_read e SCI_HDAT0
                 (reads s SCI_HDAT0 + 2 * ((unat wordsWaiting - 1) div 2)) AND 0xFF)]) \<and>
      reads (drain e wordsWaiting s) =
        (reads s)(SCI_HDAT0 := Suc (reads s SCI_HDAT0 + 2 * ((unat wordsWaiting - 1) div 2)),
                  SCI_AICTRL3 := Suc (Suc (reads s SCI_AICTRL3))) \<and>
      rec_state (drain e wordsWaiting s) = 3 \<and>
      (odd (unat wordsWaiting) \<longrightarrow>
         reads s SCI_HDAT0 + 2 * ((unat wordsWaiting - 1) div 2) =
           reads s SCI_HDAT0 + unat wordsWaiting - 1) \<and>
      (even (unat wordsWaiting) \<longrightarrow>
         reads s SCI_HDAT0 + 2 * ((unat wordsWaiting - 1) div 2) =
           reads s SCI_HDAT0 + unat wordsWaiting - 2)) \<and>
   reg_read env_two_words SCI_HDAT1 1 = 2 \<and>
   reg_read env_two_words SCI_HDAT0 0 = 0x1122 \<and>
   reg_read env_two_words SCI_HDAT0 1 = 0x3344 \<and>
   map_option (\<lambda>(r, s). (r, visited s, sink s, reads s SCI_HDAT0))
     (record_fn env_two_words (Some ''REC001.OGG'')) = Some (0, [0, 1, 2, 3], [0x11], 1)"
proof (intro conjI impI)
  assume a: "rec_state s = 2 \<and> 1 \<le> wordsWaiting \<and> wordsWaiting \<le> 256 \<and> length (wbuff s) = 256"
  then have st: "rec_state s = 2" and lo: "1 \<le> wordsWaiting" and hi: "wordsWaiting \<le> 256"
    and len: "length (wbuff s) = 256"
    by simp_all
  note d = drain_last_chunk_fields [OF st lo hi len, of e]
  let ?t = "reads s SCI_HDAT0 + 2 * ((unat wordsWaiting - 1) div 2)"
  show "sink (drain e wordsWaiting s) =
        sink s @ hdat0_bytes e (2 * reads s SCI_HDAT0) (2 * ?t) @
        ucast (drop_bit 8 (reg_read e SCI_HDAT0 ?t)) #
        (if bit (reg_read e SCI_AICTRL3 (Suc (reads s SCI_AICTRL3))) 2 then []
         else [ucast (reg_read e SCI_HDAT0 ?t AND 0xFF)])"
    unfolding d(4) hdat0_bytes_def [symmetric] hdat0_byte_even hdat0_byte_odd
    by (simp add: bit2_clear)
  show "reads (drain e wordsWaiting s) =
        (reads s)(SCI_HDAT0 := Suc ?t, SCI_AICTRL3 := Suc (Suc (reads s SCI_AICTRL3)))"
    by (rule d(3))
  show "rec_state (drain e wordsWaiting s) = 3" by (rule d(1))
  from lo have n: "1 \<le> unat wordsWaiting" by unat_arith
  show "?t = reads s SCI_HDAT0 + unat wordsWaiting - 1" if "odd (unat wordsWaiting)"
    using last_chunk_words(1) [OF that] n by simp
  show "?t = reads s SCI_HDAT0 + unat wordsWaiting - 2" if "even (unat wordsWaiting)"
  proof -
    from that n have "2 \<le> unat wordsWaiting" by presburger
    with last_chunk_words(2) [OF that n] show ?thesis by simp
  qed
next
  show "reg_read env_two_words SCI_HDAT1 1 = 2" "reg_read env_two_words SCI_HDAT0 0 = 0x1122"
    "reg_read env_two_words SCI_HDAT0 1 = 0x3344"
    by (simp_all add: env_two_words_def env_idle_def)
  show "map_option (\<lambda>(r, s). (r, visited s, sink s, reads s SCI_HDAT0))
     (record_fn env_two_words (Some ''REC001.OGG'')) = Some (0, [0, 1, 2, 3], [0x11], 1)"
    by (simp add: two_words_run finish_fields)
qed

theorem last_word_of_last_chunk_witness:
  "rec_state st_draining = 2 \<and> (1 :: u16) \<le> 2 \<and> (2 :: u16) \<le> 256 \<and>
   length (wbuff st_draining) = 256 \<and> even (unat (2 :: u16)) \<and>
   sink (drain env_two_words 2 st_draining) = [0x11] \<and>
   reads (drain env_two_words 2 st_draining) SCI_HDAT0 = 1 \<and>
   (1 :: u16) \<le> 1 \<and> odd (unat (1 :: u16)) \<and>
   sink (drain env_stop_one 1 st_draining) = [0xAB, 0xCD] \<and>
   reads (drain env_stop_one 1 st_draining) SCI_HDAT0 = 1"
proof -
  have s: "rec_state st_draining = 2" "length (wbuff st_draining) = 256"
    "sink st_draining = []" "reads st_draining = (\<lambda>_. 0)"
    by (simp_all add: st_draining_def st0_def)
  have a: "(1 :: u16) \<le> 2" "(2 :: u16) \<le> 256" "(1 :: u16) \<le> 1" "(1 :: u16) \<le> 256"
    "unat (2 :: u16) = 2" "unat (1 :: u16) = 1"
    by simp_all
  have two: "reg_read env_two_words SCI_HDAT0 0 = 0x1122" "reg_read env_two_words SCI_AICTRL3 (Suc 0) = 6"
    and one: "reg_read env_stop_one SCI_HDAT0 0 = 0xABCD" "reg_read env_stop_one SCI_AICTRL3 (Suc 0) = 2"
    by (simp_all add: env_two_words_def env_stop_one_def env_idle_def)
  have b: "bit (6 :: u16) 2" "\<not> bit (2 :: u16) 2"
    by (simp_all add: bit2_clear [symmetric])
  from last_word_of_last_chunk [of st_draining 2 env_two_words] s a(1,2)
  have "sink (drain env_two_words 2 st_draining) = [0x11]"
    "reads (drain env_two_words 2 st_draining) SCI_HDAT0 = 1"
    by (simp_all add: a(5) two b hdat0_bytes_empty)
  moreover from last_word_of_last_chunk [of st_draining 1 env_stop_one] s a(3,4)
  have "sink (drain env_stop_one 1 st_draining) = [0xAB, 0xCD]"
    "reads (drain env_stop_one 1 st_draining) SCI_HDAT0 = 1"
    by (simp_all add: a(6) one b hdat0_bytes_empty)
  ultimately show ?thesis using s a by simp
qed

section \<open>Scenario C\<close>

text \<open>
  C2. Scenario C on the code, with 40 words waiting throughout the third pass: the first
  two passes write one full chunk of 256 words each (bytes 0 to 1023 of the stream) and
  leave the state at 0. In the third pass the stop is requested and acknowledged;
  \<^verbatim>\<open>wordsToRead\<close> becomes 39 and \<^verbatim>\<open>wordsToWrite = wordsToRead / 2\<close> is 19, so the two
  passes of the transfer move 38 words (76 bytes), the 39th word is taken for the last
  word, and the 40th is never read: 551 words are read where the codec reported 552, and
  the file holds 1102 bytes. With the four counts read in sequence instead, the reading
  repeated after the acknowledgement is the 0: the 40 words are not drained, the state stays
  2 with the 1024 bytes of the two full chunks in the file, and \<^verbatim>\<open>record\<close> does not
  return.
\<close>

theorem scenario_c_run:
  "rec_state (loop_passes env_scenario_c 2 (loop_entry env_scenario_c ''REC001.OGG'')) = 0 \<and>
   sink (loop_passes env_scenario_c 2 (loop_entry env_scenario_c ''REC001.OGG'')) =
     hdat0_bytes env_scenario_c 0 1024 \<and>
   words_to_read (st0\<lparr>rec_state := 2\<rparr>) 40 = 39 \<and>
   words_to_write (st0\<lparr>rec_state := 2\<rparr>) 40 = 19 \<and>
   map_option (\<lambda>(r, s). (r, visited s, sink s, reads s SCI_HDAT0))
     (record_fn env_scenario_c (Some ''REC001.OGG'')) =
     Some (0, [0, 1, 2, 3], hdat0_bytes env_scenario_c 0 1102, 551) \<and>
   rec_state (loop_passes env_scenario_c_seq 3 (loop_entry env_scenario_c_seq ''REC001.OGG'')) = 2 \<and>
   sink (loop_passes env_scenario_c_seq 3 (loop_entry env_scenario_c_seq ''REC001.OGG'')) =
     hdat0_bytes env_scenario_c_seq 0 1024 \<and>
   record_fn env_scenario_c_seq (Some ''REC001.OGG'') = None"
proof -
  let ?e = env_scenario_c
  let ?s0 = "loop_entry ?e ''REC001.OGG''"
  let ?s1 = "loop_body ?e ?s0"
  let ?s2 = "loop_body ?e ?s1"
  let ?s3 = "loop_body ?e ?s2"
  have env: "load_result ?e ''oggenc.053'' = 0" "open_ok ?e ''REC001.OGG''"
    "getKey ?e 0 = 0" "getKey ?e (Suc 0) = 0" "getKey ?e (Suc (Suc 0)) \<noteq> 0"
    "serial_in ?e n = None"
    "reg_read ?e SCI_HDAT1 0 = 300" "reg_read ?e SCI_HDAT1 (Suc 0) = 300"
    "reg_read ?e SCI_HDAT1 (Suc (Suc (Suc 0))) = 40"
    "reg_read ?e SCI_AICTRL3 n = 2" for n
    by (simp_all add: env_scenario_c_def env_idle_def)
  note p1 = pass_full [of ?s0 ?e]
  have f1: "rec_state ?s1 = 0" "visited ?s1 = [0]" "sink ?s1 = hdat0_bytes ?e 0 512"
    "reads ?s1 SCI_HDAT0 = 256" "reads ?s1 SCI_HDAT1 = Suc 0" "reads ?s1 SCI_AICTRL3 = 0"
    "length (wbuff ?s1) = 256" "polls ?s1 = Suc 0"
    using p1 by (simp_all add: loop_entry_fields env)
  note p2 = pass_full [of ?s1 ?e]
  have f2: "rec_state ?s2 = 0" "visited ?s2 = [0]"
    "sink ?s2 = hdat0_bytes ?e 0 512 @ hdat0_bytes ?e 512 1024"
    "reads ?s2 SCI_HDAT0 = 512" "reads ?s2 SCI_HDAT1 = Suc (Suc 0)" "reads ?s2 SCI_AICTRL3 = 0"
    "length (wbuff ?s2) = 256" "polls ?s2 = Suc (Suc 0)"
    using p2 by (simp_all add: f1 env)
  have sink2: "sink ?s2 = hdat0_bytes ?e 0 1024"
    unfolding f2(3) by (rule hdat0_bytes_append) simp_all
  have m: "2 * ((unat (40 :: u16) - 1) div 2) = 38" by simp
  note p3 = pass_stop_last [of ?s2 ?e]
  have f3: "rec_state ?s3 = 3" "visited ?s3 = [0, 1, 2, 3]"
    "sink ?s3 = hdat0_bytes ?e 0 1024 @ hdat0_bytes ?e 1024 1100 @
       [hdat0_byte ?e 1100, hdat0_byte ?e (Suc 1100)]"
    "reads ?s3 SCI_HDAT0 = 551"
    using p3 by (simp_all add: f2(1,2,4-) sink2 env m)
  have "hdat0_bytes ?e 0 1024 @ hdat0_bytes ?e 1024 1100 @
       [hdat0_byte ?e 1100, hdat0_byte ?e (Suc 1100)] = hdat0_bytes ?e 0 (Suc (Suc 1100))"
    by (rule hdat0_bytes_chain) simp_all
  then have sink3: "sink ?s3 = hdat0_bytes ?e 0 1102"
    unfolding f3(3) by simp
  have lt: "rec_state ?s0 < 3" "rec_state ?s1 < 3" "rec_state ?s2 < 3"
    by (simp_all add: loop_entry_fields f1 f2)
  have two: "loop_passes ?e 2 ?s0 = ?s2"
    unfolding numeral_2_eq_2 by (simp add: loop_passes_Suc loop_passes_0 loop_pass_def lt)
  have three: "loop_passes ?e 3 ?s0 = ?s3"
    unfolding numeral_3_eq_3 by (simp add: loop_passes_Suc loop_passes_0 loop_pass_def lt)
  with f3(1) have "record_loop ?e ?s0 = Some ?s3"
    using record_loop_done [of ?e 3 ?s0] by simp
  then have "record_fn ?e (Some ''REC001.OGG'') = Some (0, finish ?e ?s3)"
    by (simp add: record_fn_ready [OF scenario_ready(3) env(1,2)])
  moreover have "words_to_read (st0\<lparr>rec_state := 2\<rparr>) 40 = 39"
    "words_to_write (st0\<lparr>rec_state := 2\<rparr>) 40 = 19"
    by (simp_all add: words_to_write_def words_to_read_def words_left_def)
  ultimately show ?thesis
    by (simp add: two f2(1) sink2 finish_fields f3(1,2,4) sink3 scenario_c_seq_run)
qed

section \<open>The waits for DREQ\<close>

text \<open>
  C3. Claimed: each DREQ wait of \<^verbatim>\<open>record\<close> ends after at most 100 ms whatever DREQ does.
  The loop condition is \<^verbatim>\<open>!digitalRead(MP3_DREQ) || millis() - timer > 100UL\<close>, so the
  wait ends at the first sample where DREQ is high and at most 100 ms have passed; if
  there is no such sample it never ends, and with DREQ low throughout \<^verbatim>\<open>record\<close>
  does not return.
\<close>

theorem dreq_wait_not_bounded:
  "(wait_dreq e timer k = None \<longleftrightarrow> (\<forall>n\<ge>k. \<not> dreq e n \<or> 100 < millis e n - timer)) \<and>
   ((\<forall>n. \<not> dreq e n) \<longrightarrow> record_fn e filename = None)"
proof (intro conjI iffI impI)
  assume "wait_dreq e timer k = None"
  then show "\<forall>n\<ge>k. \<not> dreq e n \<or> 100 < millis e n - timer"
    using wait_dreq_exits [of k _ e timer] by (fastforce simp: not_less)
next
  assume "\<forall>n\<ge>k. \<not> dreq e n \<or> 100 < millis e n - timer"
  then show "wait_dreq e timer k = None" by (rule wait_dreq_never)
next
  assume "\<forall>n. \<not> dreq e n"
  then show "record_fn e filename = None" by (rule record_fn_hangs_in_setup)
qed

theorem dreq_wait_not_bounded_witness:
  "wait_dreq env_stuck 0 0 = None \<and> record_fn env_stuck (Some ''REC001.OGG'') = None"
  using dreq_wait_not_bounded [of env_stuck 0 0 "Some ''REC001.OGG''"]
  by (simp add: env_stuck_def env_idle_def)

section \<open>The order of the states\<close>

text \<open>
  C4. During one call of \<^verbatim>\<open>record\<close> the values assigned to \<^verbatim>\<open>rec_state\<close> are, in order,
  an initial part of 0, 1, 2, 3: after any number of passes of the recording loop, started
  in state 0, whatever the keypad, the serial port and the codec answer; and in the state
  \<^verbatim>\<open>record\<close> returns with.
\<close>

theorem rec_state_only_advances:
  "(visited s = [0] \<and> rec_state s = 0 \<longrightarrow>
      prefix (visited (loop_passes e n s)) [0, 1, 2, 3] \<and>
      visited (loop_passes e n s) \<noteq> [] \<and>
      rec_state (loop_passes e n s) = last (visited (loop_passes e n s))) \<and>
   (record_fn e filename = Some (r, s') \<longrightarrow>
      prefix (visited s') [0, 1, 2, 3] \<and> visited s' \<noteq> [] \<and> rec_state s' = last (visited s'))"
proof (intro conjI impI)
  assume "visited s = [0] \<and> rec_state s = 0"
  then have "trace_ok s" by (simp add: trace_ok_iff)
  then have "trace_ok (loop_passes e n s)" by (rule loop_passes_trace)
  then show "prefix (visited (loop_passes e n s)) [0, 1, 2, 3]"
    and "visited (loop_passes e n s) \<noteq> []"
    and "rec_state (loop_passes e n s) = last (visited (loop_passes e n s))"
    by (simp_all add: trace_ok_def)
next
  assume "record_fn e filename = Some (r, s')"
  then have "trace_ok s'" by (rule record_fn_trace)
  then show "prefix (visited s') [0, 1, 2, 3]" and "visited s' \<noteq> []"
    and "rec_state s' = last (visited s')"
    by (simp_all add: trace_ok_def)
qed

theorem rec_state_only_advances_witness:
  "visited (loop_entry env_stop_one ''REC001.OGG'') = [0] \<and>
   rec_state (loop_entry env_stop_one ''REC001.OGG'') = 0 \<and>
   prefix (visited (loop_passes env_stop_one 5 (loop_entry env_stop_one ''REC001.OGG'')))
     [0, 1, 2, 3] \<and>
   (\<exists>s'. record_fn env_stop_one (Some ''REC001.OGG'') = Some (0, s') \<and>
        prefix (visited s') [0, 1, 2, 3] \<and> rec_state s' = last (visited s'))"
proof -
  from stop_one_returns obtain s'
    where r: "record_fn env_stop_one (Some ''REC001.OGG'') = Some (0, s')" by blast
  from rec_state_only_advances [where s = "loop_entry env_stop_one ''REC001.OGG''"
      and e = env_stop_one and n = 5 and filename = "Some ''REC001.OGG''" and r = 0 and s' = s'] r
  show ?thesis by (auto simp: loop_entry_fields)
qed

section \<open>Scenario A\<close>

text \<open>
  C5, as claimed, fails: in Scenario A (plug-in loaded, file opened, stop key at the first
  poll, stop acknowledged, no waiting word ever reported) \<^verbatim>\<open>record\<close> does not return.
\<close>

theorem scenario_a_never_returns:
  "load_result env_stop_empty ''oggenc.053'' = 0 \<and> open_ok env_stop_empty ''REC001.OGG'' \<and>
   getKey env_stop_empty 0 \<noteq> 0 \<and> reg_read env_stop_empty SCI_AICTRL3 0 AND 2 \<noteq> 0 \<and>
   (\<forall>n. reg_read env_stop_empty SCI_HDAT1 n = 0) \<and>
   record_fn env_stop_empty (Some ''REC001.OGG'') = None"
proof -
  have c: "load_result env_stop_empty ''oggenc.053'' = 0" "open_ok env_stop_empty ''REC001.OGG''"
    "\<forall>n. reg_read env_stop_empty SCI_HDAT1 n = 0"
    by (simp_all add: env_stop_empty_def env_idle_def)
  have "getKey env_stop_empty 0 \<noteq> 0" "reg_read env_stop_empty SCI_AICTRL3 0 AND 2 \<noteq> 0"
    by (simp_all add: env_stop_empty_def env_idle_def)
  with c stop_without_words(1) [OF scenario_ready(1) c] show ?thesis by simp
qed

text \<open>
  C5, amended. Let the codec be ready at every wait, the plug-in load, the file open, a
  stop request arrive at the first poll and the stop be acknowledged at once. If the codec
  never reports a waiting word, \<^verbatim>\<open>record\<close> does not return: it goes through states
  0, 1, 2 in the first pass and stays in state 2 with nothing written to the file. If the
  codec reports exactly one waiting word after the acknowledgement, \<^verbatim>\<open>record\<close> returns
  0 after states 0, 1, 2, 3, and the file holds the high byte of that word, followed by
  its low byte when bit 2 of the second status reading is clear: 1 or 2 bytes.
\<close>

theorem stop_on_first_poll:
  assumes "always_ready e" "load_result e ''oggenc.053'' = 0" "open_ok e name"
    and "getKey e 0 \<noteq> 0 \<or> serial_in e 0 = Some 0x73"
    and "reg_read e SCI_AICTRL3 0 AND 2 \<noteq> 0"
  shows "((\<forall>n. reg_read e SCI_HDAT1 n = 0) \<longrightarrow>
            record_fn e (Some name) = None \<and>
            (\<forall>n. sink (loop_passes e n (loop_entry e name)) = [] \<and>
                 visited (loop_passes e (Suc n) (loop_entry e name)) = [0, 1, 2])) \<and>
         (reg_read e SCI_HDAT1 1 = 1 \<longrightarrow>
            (\<exists>s. record_fn e (Some name) = Some (0, s) \<and> visited s = [0, 1, 2, 3] \<and>
                 sink s = hdat0_byte e 0 #
                   (if reg_read e SCI_AICTRL3 2 AND 4 = 0 then [hdat0_byte e 1] else [])))"
  using stop_without_words [OF assms(1-3)] assms(4,5) stop_with_one_word [OF assms]
  by blast

theorem stop_on_first_poll_witness:
  "always_ready env_stop_one \<and> load_result env_stop_one ''oggenc.053'' = 0 \<and>
   open_ok env_stop_one ''REC001.OGG'' \<and> getKey env_stop_one 0 \<noteq> 0 \<and>
   reg_read env_stop_one SCI_AICTRL3 0 AND 2 \<noteq> 0 \<and> reg_read env_stop_one SCI_HDAT1 1 = 1 \<and>
   (\<exists>s. record_fn env_stop_one (Some ''REC001.OGG'') = Some (0, s) \<and>
        visited s = [0, 1, 2, 3] \<and> sink s = [0xAB, 0xCD]) \<and>
   always_ready env_stop_empty \<and> (\<forall>n. reg_read env_stop_empty SCI_HDAT1 n = 0) \<and>
   record_fn env_stop_empty (Some ''REC001.OGG'') = None \<and>
   visited (loop_passes env_stop_empty 1 (loop_entry env_stop_empty ''REC001.OGG'')) = [0, 1, 2]"
proof -
  have one: "load_result env_stop_one ''oggenc.053'' = 0" "open_ok env_stop_one ''REC001.OGG''"
    "getKey env_stop_one 0 \<noteq> 0 \<or> serial_in env_stop_one 0 = Some 0x73"
    "reg_read env_stop_one SCI_AICTRL3 0 AND 2 \<noteq> 0"
    and w: "reg_read env_stop_one SCI_HDAT1 1 = 1"
    and k: "getKey env_stop_one 0 \<noteq> 0"
    and b: "hdat0_byte env_stop_one 0 = 0xAB" "hdat0_byte env_stop_one 1 = 0xCD"
      "reg_read env_stop_one SCI_AICTRL3 2 AND 4 = 0"
    by (simp_all add: env_stop_one_def env_idle_def hdat0_byte_def)
  have empty: "load_result env_stop_empty ''oggenc.053'' = 0"
    "open_ok env_stop_empty ''REC001.OGG''"
    "getKey env_stop_empty 0 \<noteq> 0 \<or> serial_in env_stop_empty 0 = Some 0x73"
    "reg_read env_stop_empty SCI_AICTRL3 0 AND 2 \<noteq> 0"
    and z: "\<forall>n. reg_read env_stop_empty SCI_HDAT1 n = 0"
    by (simp_all add: env_stop_empty_def env_idle_def)
  from stop_on_first_poll [OF scenario_ready(2) one] w b
  have "\<exists>s. record_fn env_stop_one (Some ''REC001.OGG'') = Some (0, s) \<and>
        visited s = [0, 1, 2, 3] \<and> sink s = [0xAB, 0xCD]"
    by simp
  moreover from stop_on_first_poll [OF scenario_ready(1) empty] z
  have "record_fn env_stop_empty (Some ''REC001.OGG'') = None"
    "visited (loop_passes env_stop_empty 1 (loop_entry env_stop_empty ''REC001.OGG'')) = [0, 1, 2]"
    by simp_all
  ultimately show ?thesis
    using scenario_ready one(1,2,4) w k z by simp
qed

section \<open>The guard of the drain sub-loop\<close>

text \<open>
  C6. In state 0 or 1 the body of the drain sub-loop runs when at least 256 words are
  waiting and not otherwise (with fewer the sub-loop leaves the state as it is); in state
  2 it runs whenever at least one word is waiting, and the sub-loop then reads from the codec
  until nothing is left and the state is 3.
\<close>

theorem drain_entry_guard:
  "(rec_state s < 2 \<and> wordsWaiting < 256 \<longrightarrow>
      \<not> drain_guard s wordsWaiting \<and> drain e wordsWaiting s = s) \<and>
   (rec_state s < 2 \<and> 256 \<le> wordsWaiting \<longrightarrow>
      drain_guard s wordsWaiting \<and>
      drain e wordsWaiting s = drain e (words_left wordsWaiting) (drain_body e wordsWaiting s)) \<and>
   (rec_state s = 2 \<and> 1 \<le> wordsWaiting \<longrightarrow>
      drain_guard s wordsWaiting \<and>
      drain e wordsWaiting s = drain e (words_left wordsWaiting) (drain_body e wordsWaiting s) \<and>
      rec_state (drain e wordsWaiting s) = 3 \<and>
      reads s SCI_HDAT0 < reads (drain e wordsWaiting s) SCI_HDAT0) \<and>
   (rec_state s = 2 \<and> wordsWaiting = 0 \<longrightarrow>
      \<not> drain_guard s wordsWaiting \<and> drain e wordsWaiting s = s)"
proof (intro conjI impI)
  assume a: "rec_state s < 2 \<and> wordsWaiting < 256"
  then show g: "\<not> drain_guard s wordsWaiting" by (simp add: drain_guard_def not_le)
  then show "drain e wordsWaiting s = s" by (rule drain_skip)
next
  assume a: "rec_state s < 2 \<and> 256 \<le> wordsWaiting"
  then show g: "drain_guard s wordsWaiting" by (simp add: drain_guard_def)
  then show "drain e wordsWaiting s = drain e (words_left wordsWaiting) (drain_body e wordsWaiting s)"
    by (rule drain_step)
next
  assume a: "rec_state s = 2 \<and> 1 \<le> wordsWaiting"
  then show g: "drain_guard s wordsWaiting" by (simp add: drain_guard_def)
  then show "drain e wordsWaiting s = drain e (words_left wordsWaiting) (drain_body e wordsWaiting s)"
    by (rule drain_step)
  from a drain_to_empty [of s wordsWaiting e]
  show "rec_state (drain e wordsWaiting s) = 3"
    and "reads s SCI_HDAT0 < reads (drain e wordsWaiting s) SCI_HDAT0"
    by simp_all
next
  assume a: "rec_state s = 2 \<and> wordsWaiting = 0"
  then show g: "\<not> drain_guard s wordsWaiting" by (simp add: drain_guard_def)
  then show "drain e wordsWaiting s = s" by (rule drain_skip)
qed

theorem drain_entry_guard_witness:
  "rec_state st0 < 2 \<and> (255 :: u16) < 256 \<and> drain env_stop_one 255 st0 = st0 \<and>
   (256 :: u16) \<le> 300 \<and> drain_guard st0 300 \<and>
   rec_state st_draining = 2 \<and> (1 :: u16) \<le> 1 \<and> drain_guard st_draining 1 \<and>
   rec_state (drain env_stop_one 1 st_draining) = 3 \<and>
   \<not> drain_guard st_draining 0"
proof -
  have s: "rec_state st0 < 2" "rec_state st_draining = 2"
    by (simp_all add: st0_def st_draining_def)
  have a: "(255 :: u16) < 256" "(256 :: u16) \<le> 300" "(1 :: u16) \<le> 1"
    by simp_all
  from drain_entry_guard [of st0 255 env_stop_one] drain_entry_guard [of st0 300 env_stop_one]
    drain_entry_guard [of st_draining 1 env_stop_one] drain_entry_guard [of st_draining 0 env_stop_one]
    s a
  show ?thesis by blast
qed

section \<open>The capacity of the drain buffer\<close>

text \<open>
  C7. Whenever the body of the drain sub-loop runs, the number of words staged in one pass
  (\<^verbatim>\<open>wordsToWrite\<close>) is at most 128, so the indices \<^verbatim>\<open>2*j\<close> and \<^verbatim>\<open>2*j+1\<close> written for
  \<open>j < wordsToWrite\<close> are below 256, and so is the byte count given to \<^verbatim>\<open>file.write\<close>.
  Over any number of passes of the recording loop, and in every run of \<^verbatim>\<open>record\<close> that
  returns, no access falls outside the 256-byte buffer.
\<close>

theorem drain_buffer_capacity:
  "(drain_guard s wordsWaiting \<longrightarrow>
      unat (words_to_write s wordsWaiting) \<le> 128 \<and>
      (\<forall>j < unat (words_to_write s wordsWaiting). 2 * j < 256 \<and> 2 * j + 1 < 256) \<and>
      2 * unat (words_to_write s wordsWaiting) \<le> 256) \<and>
   (length (wbuff s) = 256 \<and> \<not> overrun s \<longrightarrow>
      length (wbuff (loop_passes e n s)) = 256 \<and> \<not> overrun (loop_passes e n s)) \<and>
   (record_fn e filename = Some (r, s') \<longrightarrow> \<not> overrun s')"
proof (intro conjI impI allI)
  assume "drain_guard s wordsWaiting"
  then have "1 \<le> wordsWaiting" by (rule guard_nonzero)
  then show le: "unat (words_to_write s wordsWaiting) \<le> 128"
    by (rule unat_words_to_write)
  then show "2 * unat (words_to_write s wordsWaiting) \<le> 256" by simp
  fix j assume "j < unat (words_to_write s wordsWaiting)"
  with le show "2 * j < 256" and "2 * j + 1 < 256" by simp_all
next
  assume "length (wbuff s) = 256 \<and> \<not> overrun s"
  with loop_passes_safe [of s e n]
  show "length (wbuff (loop_passes e n s)) = 256" and "\<not> overrun (loop_passes e n s)"
    by simp_all
next
  assume "record_fn e filename = Some (r, s')"
  then show "\<not> overrun s'" by (rule record_fn_safe)
qed

theorem drain_buffer_capacity_witness:
  "drain_guard st0 300 \<and> unat (words_to_write st0 300) \<le> 128 \<and>
   length (wbuff st0) = 256 \<and> \<not> overrun st0 \<and> \<not> overrun (loop_passes env_stop_one 3 st0) \<and>
   (\<exists>s'. record_fn env_stop_one (Some ''REC001.OGG'') = Some (0, s') \<and> \<not> overrun s')"
proof -
  have g: "drain_guard st0 300" and b: "length (wbuff st0) = 256" "\<not> overrun st0"
    by (simp_all add: drain_guard_def st0_def)
  from stop_one_returns obtain s'
    where r: "record_fn env_stop_one (Some ''REC001.OGG'') = Some (0, s')" by blast
  from drain_buffer_capacity [of st0 300 env_stop_one 3 "Some ''REC001.OGG''" 0 s'] g b r
  show ?thesis by blast
qed

section \<open>Failures before the recording starts\<close>

text \<open>
  C8. Let the two waits of steps 1 and 3 end. If the plug-in load reports an error,
  \<^verbatim>\<open>record\<close> returns 1; everything it has done is the five register writes of steps 1 to
  4 and the load attempt: no file is opened, nothing is written to it, and none of the
  writes of steps 6 to 12 (\<^verbatim>\<open>SCI_MODE\<close> input selection, \<^verbatim>\<open>SCI_AICTRL1\<close>, \<^verbatim>\<open>SCI_AICTRL2\<close>,
  \<^verbatim>\<open>SCI_AICTRL3\<close>, \<^verbatim>\<open>SCI_AIADDR\<close>) happens. If the plug-in loads and the file cannot be
  opened, \<^verbatim>\<open>record\<close> returns 2 after the load and the failed open, again with none of
  those writes. In both cases \<^verbatim>\<open>rec_state\<close> is still 0 and \<^verbatim>\<open>SCI_HDAT1\<close> has not been
  read: the recording loop is not entered. In every run that returns, the plug-in load
  follows the writes of steps 1 to 4 and comes before anything else.
\<close>

theorem failure_order:
  assumes "setup_device e (set_rec_state 0 st0) = Some s1"
  shows "(load_result e ''oggenc.053'' \<noteq> 0 \<longrightarrow>
            (\<exists>k. record_fn e filename =
               Some (1, (set_rec_state 0 st0)
                 \<lparr>events := setup_writes e 0 @
                    [LoadPlugin ''oggenc.053'' (load_result e ''oggenc.053'')],
                  reads := (\<lambda>_. 0)(SCI_MODE := 1), now := k\<rparr>))) \<and>
         (load_result e ''oggenc.053'' = 0 \<and> \<not> open_ok e name \<longrightarrow>
            (\<exists>k. record_fn e (Some name) =
               Some (2, (set_rec_state 0 st0)
                 \<lparr>events := setup_writes e 0 @
                    [LoadPlugin ''oggenc.053'' 0, FileOpen name False],
                  reads := (\<lambda>_. 0)(SCI_MODE := 1), now := k\<rparr>))) \<and>
         (record_fn e filename = Some (r, s) \<longrightarrow>
            prefix (setup_writes e 0 @ [LoadPlugin ''oggenc.053'' (load_result e ''oggenc.053'')])
              (events s))"
proof -
  from setup_from_start [OF assms] obtain k where
    s1: "s1 = (set_rec_state 0 st0)\<lparr>events := setup_writes e 0,
                 reads := (\<lambda>_. 0)(SCI_MODE := 1), now := k\<rparr>"
    by blast
  have "load_result e ''oggenc.053'' \<noteq> 0 \<Longrightarrow> record_fn e filename =
      Some (1, (set_rec_state 0 st0)
                 \<lparr>events := setup_writes e 0 @
                    [LoadPlugin ''oggenc.053'' (load_result e ''oggenc.053'')],
                  reads := (\<lambda>_. 0)(SCI_MODE := 1), now := k\<rparr>)"
    by (simp add: record_fn_def assms VSLoadUserCode_def s1)
  moreover have "load_result e ''oggenc.053'' = 0 \<and> \<not> open_ok e name \<Longrightarrow>
      record_fn e (Some name) =
        Some (2, (set_rec_state 0 st0)
                 \<lparr>events := setup_writes e 0 @
                    [LoadPlugin ''oggenc.053'' 0, FileOpen name False],
                  reads := (\<lambda>_. 0)(SCI_MODE := 1), now := k\<rparr>)"
    by (simp add: record_fn_def assms VSLoadUserCode_def file_open_def s1)
  ultimately show ?thesis
    using record_fn_events [of e filename r s] by blast
qed

theorem failure_order_witness:
  "(\<exists>s1. setup_device env_no_plugin (set_rec_state 0 st0) = Some s1) \<and>
   load_result env_no_plugin ''oggenc.053'' \<noteq> 0 \<and>
   (\<exists>s. record_fn env_no_plugin (Some ''REC001.OGG'') = Some (1, s) \<and>
        events s = setup_writes env_no_plugin 0 @ [LoadPlugin ''oggenc.053'' 1] \<and>
        sink s = [] \<and> rec_state s = 0 \<and> reads s SCI_HDAT1 = 0) \<and>
   (\<exists>s1. setup_device env_no_card (set_rec_state 0 st0) = Some s1) \<and>
   load_result env_no_card ''oggenc.053'' = 0 \<and> \<not> open_ok env_no_card ''REC001.OGG'' \<and>
   (\<exists>s. record_fn env_no_card (Some ''REC001.OGG'') = Some (2, s) \<and>
        events s = setup_writes env_no_card 0 @
          [LoadPlugin ''oggenc.053'' 0, FileOpen ''REC001.OGG'' False] \<and>
        sink s = [] \<and> rec_state s = 0 \<and> reads s SCI_HDAT1 = 0)"
proof -
  have p: "load_result env_no_plugin ''oggenc.053'' = 1"
    and c: "load_result env_no_card ''oggenc.053'' = 0" "\<not> open_ok env_no_card ''REC001.OGG''"
    by (simp_all add: env_no_plugin_def env_no_card_def env_idle_def)
  note s1 = setup_device_ok [OF failure_envs_ready(1), of "set_rec_state 0 st0"]
  note s2 = setup_device_ok [OF failure_envs_ready(2), of "set_rec_state 0 st0"]
  have p': "load_result env_no_plugin ''oggenc.053'' \<noteq> 0" by (simp add: p)
  from failure_order [OF s1, where filename = "Some ''REC001.OGG''"] p' obtain k1 where
    "record_fn env_no_plugin (Some ''REC001.OGG'') =
       Some (1, (set_rec_state 0 st0)
                 \<lparr>events := setup_writes env_no_plugin 0 @
                    [LoadPlugin ''oggenc.053'' (load_result env_no_plugin ''oggenc.053'')],
                  reads := (\<lambda>_. 0)(SCI_MODE := 1), now := k1\<rparr>)"
    by blast
  then have "\<exists>s. record_fn env_no_plugin (Some ''REC001.OGG'') = Some (1, s) \<and>
        events s = setup_writes env_no_plugin 0 @ [LoadPlugin ''oggenc.053'' 1] \<and>
        sink s = [] \<and> rec_state s = 0 \<and> reads s SCI_HDAT1 = 0"
    by (simp add: set_rec_state_def st0_def p)
  moreover from failure_order [OF s2, where name = "''REC001.OGG''"] c obtain k2 where
    "record_fn env_no_card (Some ''REC001.OGG'') =
       Some (2, (set_rec_state 0 st0)
                 \<lparr>events := setup_writes env_no_card 0 @
                    [LoadPlugin ''oggenc.053'' 0, FileOpen ''REC001.OGG'' False],
                  reads := (\<lambda>_. 0)(SCI_MODE := 1), now := k2\<rparr>)"
    by blast
  then have "\<exists>s. record_fn env_no_card (Some ''REC001.OGG'') = Some (2, s) \<and>
        events s = setup_writes env_no_card 0 @
          [LoadPlugin ''oggenc.053'' 0, FileOpen ''REC001.OGG'' False] \<and>
        sink s = [] \<and> rec_state s = 0 \<and> reads s SCI_HDAT1 = 0"
    by (simp add: set_rec_state_def st0_def)
  ultimately show ?thesis
    using s1 s2 p c by simp
qed

section \<open>The code for a missing file name\<close>

text \<open>
  C9, as claimed, fails: with a null file name and a plug-in that does not load,
  \<^verbatim>\<open>record\<close> returns 1, not 3; and an empty (non-null) name is passed to \<^verbatim>\<open>file.open\<close>
  like any other, so that on a card where the open fails \<^verbatim>\<open>record\<close> returns 2.
\<close>

theorem null_name_not_always_3:
  "map_option fst (record_fn env_no_plugin None) = Some 1 \<and>
   map_option fst (record_fn env_no_card (Some [])) = Some 2"
proof -
  have p: "load_result env_no_plugin ''oggenc.053'' = 1"
    and c: "load_result env_no_card ''oggenc.053'' = 0" "\<not> open_ok env_no_card []"
    by (simp_all add: env_no_plugin_def env_no_card_def env_idle_def)
  show ?thesis
    by (simp add: record_fn_def setup_device_ok [OF failure_envs_ready(1)]
        setup_device_ok [OF failure_envs_ready(2)] VSLoadUserCode_def file_open_def p c)
qed

text \<open>
  C9, amended. \<^verbatim>\<open>record\<close> returns 3 exactly when its file name is null and the plug-in
  has loaded (the plug-in is loaded before the name is looked at, and only a null pointer
  counts as no name). In that case no open is attempted and nothing is written. For
  every non-null name, empty or not, the code returned is 0, 1 or 2. With a null name, a
  loaded plug-in and waits that end, \<^verbatim>\<open>record\<close> does return 3.
\<close>

theorem no_filename_code:
  "(record_fn e filename = Some (r, s) \<longrightarrow>
      (r = 3 \<longleftrightarrow> filename = None \<and> load_result e ''oggenc.053'' = 0) \<and>
      (r = 3 \<longrightarrow> (\<forall>name ok. FileOpen name ok \<notin> set (events s)) \<and> sink s = []) \<and>
      (filename \<noteq> None \<longrightarrow> r = 0 \<or> r = 1 \<or> r = 2)) \<and>
   (setup_device e (set_rec_state 0 st0) = Some s1 \<and> load_result e ''oggenc.053'' = 0 \<longrightarrow>
      (\<exists>s. record_fn e None = Some (3, s)))"
proof (intro conjI impI)
  assume ret: "record_fn e filename = Some (r, s)"
  then show "r = 3 \<longleftrightarrow> filename = None \<and> load_result e ''oggenc.053'' = 0"
    by (cases rule: record_fn_elim) auto
  from ret show "filename \<noteq> None \<Longrightarrow> r = 0 \<or> r = 1 \<or> r = 2"
    by (cases rule: record_fn_elim) auto
  assume "r = 3"
  with ret obtain t1 where t1: "setup_device e (set_rec_state 0 st0) = Some t1"
    and s: "s = snd (VSLoadUserCode e ''oggenc.053'' t1)"
    by (cases rule: record_fn_elim) auto
  from setup_from_start [OF t1] obtain k where
    "t1 = (set_rec_state 0 st0)\<lparr>events := setup_writes e 0,
                 reads := (\<lambda>_. 0)(SCI_MODE := 1), now := k\<rparr>"
    by blast
  with s have "(\<forall>name ok. FileOpen name ok \<notin> set (events s)) \<and> sink s = []"
    by (simp add: VSLoadUserCode_def setup_writes_def set_rec_state_def st0_def)
  then show "\<forall>name ok. FileOpen name ok \<notin> set (events s)" and "sink s = []"
    by simp_all
next
  assume "setup_device e (set_rec_state 0 st0) = Some s1 \<and> load_result e ''oggenc.053'' = 0"
  then show "\<exists>s. record_fn e None = Some (3, s)"
    by (simp add: record_fn_def VSLoadUserCode_def)
qed

theorem no_filename_code_witness:
  "(\<exists>s1. setup_device env_idle (set_rec_state 0 st0) = Some s1) \<and>
   load_result env_idle ''oggenc.053'' = 0 \<and>
   (\<exists>s. record_fn env_idle None = Some (3, s) \<and> sink s = [] \<and>
        FileOpen ''REC001.OGG'' True \<notin> set (events s))"
proof -
  have l: "load_result env_idle ''oggenc.053'' = 0" by (simp add: env_idle_def)
  note s1 = setup_device_ok [OF env_idle_ready, of "set_rec_state 0 st0"]
  from no_filename_code [where e = env_idle and filename = None] s1 l
  obtain s where r: "record_fn env_idle None = Some (3, s)" by blast
  with no_filename_code [where e = env_idle and filename = None and r = 3 and s = s]
  have "sink s = []" "FileOpen ''REC001.OGG'' True \<notin> set (events s)" by blast+
  with r s1 l show ?thesis by blast
qed

section \<open>Full chunks before the stop\<close>

text \<open>
  C10. When the body of the drain sub-loop runs in state 0 or 1, \<^verbatim>\<open>wordsToRead\<close> is exactly
  256: the body is the two transfer passes of 128 words each and nothing else, the state
  and its history are unchanged and \<^verbatim>\<open>SCI_AICTRL3\<close> is not read. So when the body runs
  while the loop is still going (state below 3) and takes the branch
  \<^verbatim>\<open>wordsToRead < 256\<close>, with its assignment of state 3 and its handling of the last word,
  the state is 2.
\<close>

theorem full_chunk_before_stop:
  "(rec_state s < 2 \<and> drain_guard s wordsWaiting \<longrightarrow>
      min wordsWaiting 256 = 256 \<and> words_to_read s wordsWaiting = 256 \<and>
      drain_body e wordsWaiting s = transfer_group e 128 (transfer_group e 128 s) \<and>
      rec_state (drain_body e wordsWaiting s) = rec_state s \<and>
      visited (drain_body e wordsWaiting s) = visited s \<and>
      reads (drain_body e wordsWaiting s) SCI_AICTRL3 = reads s SCI_AICTRL3) \<and>
   (rec_state s < 3 \<and> drain_guard s wordsWaiting \<and> words_to_read s wordsWaiting < 256 \<longrightarrow>
      rec_state s = 2 \<and> rec_state (drain_body e wordsWaiting s) = 3 \<and>
      visited (drain_body e wordsWaiting s) = visited s @ [3])"
proof (intro conjI impI)
  assume a: "rec_state s < 2 \<and> drain_guard s wordsWaiting"
  then have ne: "rec_state s \<noteq> 2" and ge: "256 \<le> wordsWaiting"
    by (auto simp: drain_guard_def)
  from ge show "min wordsWaiting 256 = 256" by (simp add: min_def)
  from ne ge show full: "words_to_read s wordsWaiting = 256" by (rule words_to_read_full)
  then show body: "drain_body e wordsWaiting s = transfer_group e 128 (transfer_group e 128 s)"
    by (rule drain_body_full)
  show "rec_state (drain_body e wordsWaiting s) = rec_state s"
    and "visited (drain_body e wordsWaiting s) = visited s"
    and "reads (drain_body e wordsWaiting s) SCI_AICTRL3 = reads s SCI_AICTRL3"
    unfolding body by (simp_all add: transfer_group_frame)
next
  assume a: "rec_state s < 3 \<and> drain_guard s wordsWaiting \<and> words_to_read s wordsWaiting < 256"
  show two: "rec_state s = 2"
  proof (rule ccontr)
    assume ne: "rec_state s \<noteq> 2"
    with a have "rec_state s < 2" by unat_arith
    with a have "256 \<le> wordsWaiting" by (simp add: drain_guard_def)
    with ne have "words_to_read s wordsWaiting = 256" by (rule words_to_read_full)
    with a show False by simp
  qed
  from a have "drain_body e wordsWaiting s =
       last_word e (transfer_group e (words_to_write s wordsWaiting)
                      (transfer_group e (words_to_write s wordsWaiting) s))"
    by (simp add: drain_body_last)
  then show "rec_state (drain_body e wordsWaiting s) = 3"
    and "visited (drain_body e wordsWaiting s) = visited s @ [3]"
    by (simp_all add: last_word_fields transfer_group_frame)
qed

theorem full_chunk_before_stop_witness:
  "rec_state st0 < 2 \<and> drain_guard st0 300 \<and> words_to_read st0 300 = 256 \<and>
   rec_state (drain_body env_stop_one 300 st0) = 0 \<and>
   rec_state st_draining < 3 \<and> drain_guard st_draining 1 \<and> words_to_read st_draining 1 < 256 \<and>
   rec_state (drain_body env_stop_one 1 st_draining) = 3"
proof -
  have a: "rec_state st0 < 2" "drain_guard st0 300" "rec_state st0 = 0"
    and b: "rec_state st_draining < 3" "drain_guard st_draining 1"
      "words_to_read st_draining 1 < 256"
    by (simp_all add: drain_guard_def st0_def st_draining_def words_to_read_def words_left_def)
  from full_chunk_before_stop [of st0 300 env_stop_one]
    full_chunk_before_stop [of st_draining 1 env_stop_one] a b
  show ?thesis by metis
qed

end
